theory Spec2Isabelle
  imports Complex_Main "HOL-Library.Multiset"
begin

section \<open>Python values used by the statement parser\<close>

text \<open>
  A Python \<open>str\<close> is modelled as a HOL \<open>string\<close> whose characters are read as the
  code points U+0000 .. U+00FF. All literals of the parser (digits, separators and the
  accented letters of the month-name class) lie in that range. Inside it, the regex
  class \<open>\d\<close> is \<open>0-9\<close> and \<open>\s\<close> and \<open>str.strip\<close> share the whitespace set below.
  Amounts are Python floats in the source; the model keeps the exact decimal value as a
  \<open>real\<close>, so rounding to the nearest double is abstracted away.
\<close>

datatype error = ValueError | TypeError | IntegrityError

definition is_digit :: "char \<Rightarrow> bool" where
  "is_digit c = ((48::nat) \<le> of_char c \<and> of_char c \<le> (57::nat))"

definition is_space :: "char \<Rightarrow> bool" where
  "is_space c = (let n = (of_char c :: nat) in
     (9 \<le> n \<and> n \<le> 13) \<or> (28 \<le> n \<and> n \<le> 32) \<or> n = 133 \<or> n = 160)"

definition is_upper :: "char \<Rightarrow> bool" where
  "is_upper c = ((65::nat) \<le> of_char c \<and> of_char c \<le> (90::nat))"

definition is_lower :: "char \<Rightarrow> bool" where
  "is_lower c = ((97::nat) \<le> of_char c \<and> of_char c \<le> (122::nat))"

text \<open>\<open>str.strip()\<close>: leading and trailing whitespace removed.\<close>

definition py_strip :: "string \<Rightarrow> string" where
  "py_strip s = rev (dropWhile is_space (rev (dropWhile is_space s)))"

text \<open>\<open>str.lower()\<close> on U+0000 .. U+00FF: A-Z and U+00C0 .. U+00DE (without U+00D7)
  move up by 32.\<close>

definition py_lower_char :: "char \<Rightarrow> char" where
  "py_lower_char c = (let n = (of_char c :: nat) in
     if (65 \<le> n \<and> n \<le> 90) \<or> (192 \<le> n \<and> n \<le> 222 \<and> n \<noteq> 215)
     then char_of (n + 32) else c)"

definition py_lower :: "string \<Rightarrow> string" where
  "py_lower s = map py_lower_char s"

text \<open>\<open>str.replace(a, b)\<close> for one-character arguments.\<close>

definition py_replace :: "char \<Rightarrow> char \<Rightarrow> string \<Rightarrow> string" where
  "py_replace a b s = map (\<lambda>c. if c = a then b else c) s"

text \<open>\<open>str.replace('.', '')\<close>: every occurrence deleted.\<close>

definition py_remove :: "char \<Rightarrow> string \<Rightarrow> string" where
  "py_remove a s = filter (\<lambda>c. c \<noteq> a) s"

text \<open>\<open>str.split(sep)\<close> for a one-character separator.\<close>

fun py_split :: "char \<Rightarrow> string \<Rightarrow> string list" where
  "py_split sep [] = [[]]"
| "py_split sep (c # s) =
     (if c = sep then [] # py_split sep s
      else (case py_split sep s of
              [] \<Rightarrow> [[c]]
            | w # ws \<Rightarrow> (c # w) # ws))"

definition digit_val :: "char \<Rightarrow> int" where
  "digit_val c = int (of_char c) - 48"

definition digits_val :: "string \<Rightarrow> int" where
  "digits_val s = foldl (\<lambda>acc c. 10 * acc + digit_val c) 0 s"

text \<open>\<open>int(s)\<close>. The parser only calls it on digits captured by \<open>\d{1,2}\<close>; every other
  string is a \<open>ValueError\<close> here.\<close>

definition py_int :: "string \<Rightarrow> int option" where
  "py_int s = (if s \<noteq> [] \<and> list_all is_digit s then Some (digits_val s) else None)"

text \<open>\<open>float(s)\<close>. The parser only calls it on a matched amount whose dots were deleted and
  whose comma became a dot: digits, a dot, two digits and sometimes a trailing minus. On
  such strings \<open>float\<close> succeeds exactly when there is no trailing minus, and its value is
  the decimal number written.\<close>

definition py_float :: "string \<Rightarrow> real option" where
  "py_float s =
     (let ip = takeWhile is_digit s; r = drop (length ip) s in
      case r of
        [] \<Rightarrow> None
      | c # fp \<Rightarrow>
          if ip \<noteq> [] \<and> c = CHR ''.'' \<and> fp \<noteq> [] \<and> list_all is_digit fp
          then Some (real_of_int (digits_val ip) + real_of_int (digits_val fp) / 10 ^ length fp)
          else None)"

subsection \<open>\<open>datetime.date\<close>\<close>

record date =
  year :: int
  month :: int
  day :: int

definition is_leap :: "int \<Rightarrow> bool" where
  "is_leap y = (y mod 4 = 0 \<and> (y mod 100 \<noteq> 0 \<or> y mod 400 = 0))"

definition days_in_month :: "int \<Rightarrow> int \<Rightarrow> int" where
  "days_in_month y m =
     (if m = 2 then (if is_leap y then 29 else 28)
      else if m = 4 \<or> m = 6 \<or> m = 9 \<or> m = 11 then 30 else 31)"

text \<open>\<open>datetime.date(y, m, d)\<close>: \<open>None\<close> stands for the \<open>ValueError\<close> of the constructor.\<close>

definition py_date :: "int \<Rightarrow> int \<Rightarrow> int \<Rightarrow> date option" where
  "py_date y m d =
     (if 1 \<le> y \<and> y \<le> 9999 \<and> 1 \<le> m \<and> m \<le> 12 \<and> 1 \<le> d \<and> d \<le> days_in_month y m
      then Some \<lparr>year = y, month = m, day = d\<rparr> else None)"

section \<open>src/transaction.py\<close>

record Transaction =
  date :: date
  store_name :: string
  amount :: real
  installment_number :: "int option"

section \<open>src/pdf_parser.py: the patterns\<close>

text \<open>\<open>\d{1,2}\<close>, greedy: the number of digits taken, 0 when there is none.\<close>

definition match_digits12 :: "string \<Rightarrow> nat" where
  "match_digits12 s = length (takeWhile is_digit (take 2 s))"

text \<open>\<open>DATE_PATTERN = ^(\d{1,2}[/-]\d{1,2})\<close>, applied with \<open>match\<close>: group 1 and
  \<open>m.end()\<close>. When two digits are followed by something else than a separator, backing
  off to one digit leaves a digit in the separator's place, so the greedy reading decides.\<close>

definition DATE_PATTERN :: "string \<Rightarrow> (string \<times> nat) option" where
  "DATE_PATTERN line =
     (let n1 = match_digits12 line in
      if n1 = 0 then None
      else (case drop n1 line of
              [] \<Rightarrow> None
            | c # r \<Rightarrow>
                if c = CHR ''/'' \<or> c = CHR ''-'' then
                  (let n2 = match_digits12 r in
                   if n2 = 0 then None
                   else Some (take (n1 + 1 + n2) line, n1 + 1 + n2))
                else None))"

text \<open>The character class \<open>[A-Za-z\<dots>\.]\<close> of \<open>MONTH_PATTERN\<close>; the accented letters are
  U+00C1, C9, CD, D3, DA, E1, E9, ED, F3, FA, DC and FC.\<close>

definition is_month_char :: "char \<Rightarrow> bool" where
  "is_month_char c =
     (is_upper c \<or> is_lower c \<or> c = CHR ''.'' \<or>
      (of_char c :: nat) \<in> set [193, 201, 205, 211, 218, 225, 233, 237, 243, 250, 220, 252])"

text \<open>\<open>MONTH_PATTERN = ^(\d{1,2})\s+([A-Za-z\<dots>\.]+)\<close>, applied with \<open>match\<close>: group 1,
  group 2 and \<open>m.end()\<close>.\<close>

definition MONTH_PATTERN :: "string \<Rightarrow> (string \<times> string \<times> nat) option" where
  "MONTH_PATTERN line =
     (let n1 = match_digits12 line;
          r1 = drop n1 line;
          ns = length (takeWhile is_space r1);
          r2 = drop ns r1;
          nm = length (takeWhile is_month_char r2)
      in if n1 = 0 \<or> ns = 0 \<or> nm = 0 then None
         else Some (take n1 line, take nm r2, n1 + ns + nm))"

definition MONTH_NAMES :: "string \<rightharpoonup> int" where
  "MONTH_NAMES = map_of
     [(''ene'', 1), (''feb'', 2), (''mar'', 3), (''abr'', 4), (''may'', 5), (''jun'', 6),
      (''jul'', 7), (''ago'', 8), (''sep'', 9), (''oct'', 10), (''nov'', 11), (''dic'', 12)]"

text \<open>\<open>AMOUNT_PATTERN = \d[\d\.]*,\d{2}-?\<close> tried at the head of a string: the length
  of the match. The run \<open>[\d\.]*\<close> is greedy and a comma is not in its class, so the
  comma must follow the longest run.\<close>

definition amount_run :: "string \<Rightarrow> string" where
  "amount_run r = takeWhile (\<lambda>x. is_digit x \<or> x = CHR ''.'') r"

definition amount_match :: "string \<Rightarrow> nat option" where
  "amount_match s =
     (let rn = amount_run (tl s);
          t = drop (length rn) (tl s)
      in if s \<noteq> [] \<and> is_digit (hd s) \<and> 3 \<le> length t \<and>
            t ! 0 = CHR '','' \<and> is_digit (t ! 1) \<and> is_digit (t ! 2)
         then Some (length rn + 4 + (if 3 < length t \<and> t ! 3 = CHR ''-'' then 1 else 0))
         else None)"

text \<open>\<open>AMOUNT_PATTERN.finditer(rest)\<close>: the matches from left to right, none overlapping
  the one before, each as \<open>start()\<close> and \<open>group(0)\<close>. \<open>pos\<close> is the offset of \<open>s\<close> in
  the string scanned.\<close>

function finditer_amount :: "nat \<Rightarrow> string \<Rightarrow> (nat \<times> string) list" where
  "finditer_amount pos s =
     (if s = [] then []
      else (case amount_match s of
              Some n \<Rightarrow> (pos, take n s) # finditer_amount (pos + n) (drop n s)
            | None \<Rightarrow> finditer_amount (pos + 1) (tl s)))"
  by pat_completeness auto
termination
proof (relation "measure (\<lambda>(pos, s). length s)")
  show "wf (measure (\<lambda>(pos, s). length s))" by simp
next
  fix pos :: nat and s :: string and n
  assume ne: "s \<noteq> []" and "amount_match s = Some n"
  then have "0 < n"
    unfolding amount_match_def Let_def by (auto split: if_splits)
  with ne show "((pos + n, drop n s), (pos, s)) \<in> measure (\<lambda>(pos, s). length s)"
    by simp
next
  fix pos :: nat and s :: string
  assume "s \<noteq> []" and "amount_match s = None"
  then show "((pos + 1, tl s), (pos, s)) \<in> measure (\<lambda>(pos, s). length s)"
    by (cases s) simp_all
qed

text \<open>The loop \<open>for am in AMOUNT_PATTERN.finditer(rest): amt_m = am\<close>.\<close>

definition last_amount :: "string \<Rightarrow> (nat \<times> string) option" where
  "last_amount rest = foldl (\<lambda>amt_m am. Some am) None (finditer_amount 0 rest)"

text \<open>\<open>INSTALL_PATTERN = C\.?\s*(\d{1,2})/(\d{1,2})\<close> with \<open>re.IGNORECASE\<close>, tried at
  the head of a string: group 1.\<close>

definition install_match :: "string \<Rightarrow> string option" where
  "install_match s =
     (let r0 = tl s;
          r1 = (if r0 \<noteq> [] \<and> hd r0 = CHR ''.'' then tl r0 else r0);
          r2 = dropWhile is_space r1;
          n1 = match_digits12 r2;
          r3 = drop n1 r2
      in if s \<noteq> [] \<and> (hd s = CHR ''C'' \<or> hd s = CHR ''c'') \<and> n1 \<noteq> 0 \<and>
            r3 \<noteq> [] \<and> hd r3 = CHR ''/'' \<and> match_digits12 (tl r3) \<noteq> 0
         then Some (take n1 r2) else None)"

text \<open>\<open>INSTALL_PATTERN.search(desc)\<close>: \<open>start()\<close> and group 1 of the leftmost match.\<close>

fun install_search :: "nat \<Rightarrow> string \<Rightarrow> (nat \<times> string) option" where
  "install_search pos [] = None"
| "install_search pos (c # s) =
     (case install_match (c # s) of
        Some g \<Rightarrow> Some (pos, g)
      | None \<Rightarrow> install_search (pos + 1) s)"

section \<open>src/pdf_parser.py: \<open>PDFParser.parse_pdf\<close>, one line\<close>

text \<open>
  \<open>datetime.date.today().year\<close> is the parameter \<open>today_year\<close>. A result \<open>Inl e\<close> is an
  exception leaving \<open>parse_pdf\<close>, \<open>Inr None\<close> is a line skipped by \<open>continue\<close>, and
  \<open>Inr (Some t)\<close> is a transaction appended.
\<close>

text \<open>The numeric short date: the whole block sits in \<open>try\<close> with a bare \<open>except: pass\<close>, so
  every failure leaves \<open>date\<close> and \<open>rest\<close> unset.\<close>

definition numeric_date :: "int \<Rightarrow> string \<Rightarrow> (date \<times> string) option" where
  "numeric_date today_year line =
     (case DATE_PATTERN line of
        None \<Rightarrow> None
      | Some (part, e) \<Rightarrow>
          (case map py_int (py_split (CHR ''/'') (py_replace (CHR ''-'') (CHR ''/'') part)) of
             [Some d, Some mn] \<Rightarrow>
               (case py_date today_year mn d of
                  Some dt \<Rightarrow> Some (dt, py_strip (drop e line))
                | None \<Rightarrow> None)
           | _ \<Rightarrow> None))"

text \<open>The day and month-name date: no \<open>try\<close> surrounds it, so the \<open>ValueError\<close> of
  \<open>datetime.date\<close> leaves the function.\<close>

definition month_date :: "int \<Rightarrow> string \<Rightarrow> error + (date \<times> string) option" where
  "month_date today_year line =
     (case MONTH_PATTERN line of
        None \<Rightarrow> Inr None
      | Some (g1, g2, e) \<Rightarrow>
          (case py_int g1 of
             None \<Rightarrow> Inl ValueError
           | Some d \<Rightarrow>
               (case MONTH_NAMES (take 3 (py_lower g2)) of
                  None \<Rightarrow> Inr None
                | Some mn \<Rightarrow>
                    if mn = 0 then Inr None
                    else (case py_date today_year mn d of
                            None \<Rightarrow> Inl ValueError
                          | Some dt \<Rightarrow> Inr (Some (dt, py_strip (drop e line)))))))"

text \<open>The sign flag and the cleaned amount string of a match.\<close>

definition amount_neg :: "string \<Rightarrow> nat \<Rightarrow> string \<Rightarrow> bool" where
  "amount_neg rest start amt_str =
     (CHR ''-'' \<in> set amt_str \<or> (0 < start \<and> rest ! (start - 1) = CHR ''-''))"

definition amount_clean :: "string \<Rightarrow> string" where
  "amount_clean amt_str = py_replace (CHR '','') (CHR ''.'') (py_remove (CHR ''.'') amt_str)"

text \<open>The description and the instalment number, from the text before the amount.\<close>

definition parse_desc :: "string \<Rightarrow> error + (int option \<times> string)" where
  "parse_desc desc0 =
     (case (case install_search 0 desc0 of
              None \<Rightarrow> Inr (None, desc0)
            | Some (i, g) \<Rightarrow>
                (case py_int g of
                   None \<Rightarrow> Inl ValueError
                 | Some n \<Rightarrow> Inr (Some n, py_strip (take i desc0)))) of
        Inl e \<Rightarrow> Inl e
      | Inr (inst, desc) \<Rightarrow>
          Inr (inst,
               if CHR ''*'' \<in> set desc
               then py_strip (tl (dropWhile (\<lambda>c. c \<noteq> CHR ''*'') desc))
               else desc))"

text \<open>Everything after the date has been recognised.\<close>

definition parse_rest :: "date \<Rightarrow> string \<Rightarrow> string \<Rightarrow> error + Transaction option" where
  "parse_rest dt rest orig =
     (case last_amount rest of
        None \<Rightarrow> Inr None
      | Some (start, amt_str) \<Rightarrow>
          (case py_float (amount_clean amt_str) of
             None \<Rightarrow> Inr None
           | Some v \<Rightarrow>
               (case parse_desc (py_strip (take start rest)) of
                  Inl e \<Rightarrow> Inl e
                | Inr (inst, desc) \<Rightarrow>
                    Inr (Some \<lparr>date = dt,
                               store_name = (if desc = [] then orig else desc),
                               amount = (if amount_neg rest start amt_str then - v else v),
                               installment_number = inst\<rparr>))))"

definition parse_line :: "int \<Rightarrow> string \<Rightarrow> error + Transaction option" where
  "parse_line today_year orig =
     (let line = py_strip orig in
      if line = [] then Inr None
      else (case (case numeric_date today_year line of
                    Some x \<Rightarrow> Inr (Some x)
                  | None \<Rightarrow> month_date today_year line) of
              Inl e \<Rightarrow> Inl e
            | Inr None \<Rightarrow> Inr None
            | Inr (Some (dt, rest)) \<Rightarrow>
                if rest = [] then Inr None else parse_rest dt rest orig))"

text \<open>The loop over the lines of the document; the text extraction that produces the
  lines is outside the model.\<close>

fun parse_loop :: "int \<Rightarrow> string list \<Rightarrow> Transaction list \<Rightarrow> error + Transaction list" where
  "parse_loop today_year [] transactions = Inr transactions"
| "parse_loop today_year (l # ls) transactions =
     (case parse_line today_year l of
        Inl e \<Rightarrow> Inl e
      | Inr None \<Rightarrow> parse_loop today_year ls transactions
      | Inr (Some t) \<Rightarrow> parse_loop today_year ls (transactions @ [t]))"

definition parse_pdf :: "int \<Rightarrow> string list \<Rightarrow> error + Transaction list" where
  "parse_pdf today_year lines = parse_loop today_year lines []"

section \<open>src/app.py: the period substitution of \<open>ExpenseApp.load_statement\<close>\<close>

text \<open>Each parsed transaction gets the caller's month and year (\<open>mo\<close>, \<open>yr\<close>); a day that does not exist
  in that month drops the transaction (\<open>except: continue\<close>).\<close>

fun adjusted :: "int \<Rightarrow> int \<Rightarrow> Transaction list \<Rightarrow> Transaction list" where
  "adjusted yr mo [] = []"
| "adjusted yr mo (t # txs) =
     (case py_date yr mo (day (date t)) of
        Some nd \<Rightarrow> t\<lparr>date := nd\<rparr> # adjusted yr mo txs
      | None \<Rightarrow> adjusted yr mo txs)"

text \<open>Parsing followed by the substitution; an exception of \<open>parse_pdf\<close> ends the import
  with an error box and no transaction.\<close>

definition import_lines :: "int \<Rightarrow> int \<Rightarrow> int \<Rightarrow> string list \<Rightarrow> error + Transaction list" where
  "import_lines today_year yr mo lines =
     (case parse_pdf today_year lines of
        Inl e \<Rightarrow> Inl e
      | Inr txs \<Rightarrow> Inr (adjusted yr mo txs))"

section \<open>src/database_manager.py: the second \<open>PDFParser\<close>\<close>

text \<open>
  The file also carries another revision of the application, with its own
  \<open>PDFParser\<close>. Its patterns are the four above; it knows more month names, a third
  date form, and it cleans the description further. The amount is found, signed and
  converted by the same statements, so \<open>last_amount\<close>, \<open>amount_neg\<close>, \<open>amount_clean\<close>
  and \<open>py_float\<close> serve both.
\<close>

definition MONTH_NAMES_v2 :: "string \<rightharpoonup> int" where
  "MONTH_NAMES_v2 = map_of
     [(''enero'', 1), (''ene'', 1), (''ene.'', 1), (''febrero'', 2), (''feb'', 2), (''feb.'', 2),
      (''marzo'', 3), (''mar'', 3), (''mar.'', 3), (''abril'', 4), (''abr'', 4), (''abr.'', 4),
      (''mayo'', 5), (''may'', 5), (''may.'', 5), (''junio'', 6), (''jun'', 6), (''jun.'', 6),
      (''julio'', 7), (''jul'', 7), (''jul.'', 7), (''agosto'', 8), (''ago'', 8), (''ago.'', 8),
      (''septiembre'', 9), (''setiembre'', 9), (''sept'', 9), (''sep'', 9), (''sept.'', 9),
      (''sep.'', 9), (''octubre'', 10), (''oct'', 10), (''oct.'', 10), (''noviembre'', 11),
      (''nov'', 11), (''nov.'', 11), (''diciembre'', 12), (''dic'', 12), (''dic.'', 12),
      (''diciem.'', 12), (''diciem'', 12)]"

text \<open>\<open>str.rstrip('.')\<close>\<close>

definition py_rstrip_dots :: "string \<Rightarrow> string" where
  "py_rstrip_dots s = rev (dropWhile (\<lambda>c. c = CHR ''.'') (rev s))"

text \<open>\<open>str.split()\<close>: the maximal runs of characters that are not whitespace.\<close>

fun py_split_ws :: "string \<Rightarrow> string list" where
  "py_split_ws [] = []"
| "py_split_ws (c # s) =
     (if is_space c then py_split_ws s
      else if s = [] \<or> is_space (hd s) then [c] # py_split_ws s
      else (case py_split_ws s of
              [] \<Rightarrow> [[c]]
            | w # ws \<Rightarrow> (c # w) # ws))"

text \<open>\<open>' '.join(tokens)\<close>\<close>

fun py_join_space :: "string list \<Rightarrow> string" where
  "py_join_space [] = []"
| "py_join_space [w] = w"
| "py_join_space (w # ws) = w @ CHR '' '' # py_join_space ws"

text \<open>The class \<open>[A-Za-z\<dots>]\<close> of the third date form: the month class without the dot.\<close>

definition is_letter :: "char \<Rightarrow> bool" where
  "is_letter c =
     (is_upper c \<or> is_lower c \<or>
      (of_char c :: nat) \<in> set [193, 201, 205, 211, 218, 225, 233, 237, 243, 250, 220, 252])"

text \<open>\<open>^(\d{1,2})-([A-Za-z\<dots>]{3})-(\d{2,4})\<close>, applied with \<open>re.match\<close>: the three groups
  and \<open>hy.end()\<close>.\<close>

definition HYPHEN_PATTERN :: "string \<Rightarrow> (string \<times> string \<times> string \<times> nat) option" where
  "HYPHEN_PATTERN line =
     (let n1 = match_digits12 line;
          r1 = drop n1 line;
          mon = take 3 (tl r1);
          r2 = drop 3 (tl r1);
          ny = length (takeWhile is_digit (take 4 (tl r2)))
      in if n1 \<noteq> 0 \<and> r1 \<noteq> [] \<and> hd r1 = CHR ''-'' \<and> length mon = 3 \<and> list_all is_letter mon \<and>
            r2 \<noteq> [] \<and> hd r2 = CHR ''-'' \<and> 2 \<le> ny
         then Some (take n1 line, mon, take ny (tl r2), n1 + 5 + ny)
         else None)"

text \<open>The three date forms in turn. The state is the pair of \<open>date\<close> and \<open>rest\<close>, each
  \<open>None\<close> until assigned. Only the first form guards \<open>datetime.date\<close> (\<open>except ValueError:
  date = None\<close>), and it sets \<open>rest\<close> even then.\<close>

definition numeric_date_v2 :: "int \<Rightarrow> string \<Rightarrow> error + (date option \<times> string option)" where
  "numeric_date_v2 today_year line =
     (case DATE_PATTERN line of
        None \<Rightarrow> Inr (None, None)
      | Some (date_str, e) \<Rightarrow>
          (case map py_int (py_split (CHR ''/'') (py_replace (CHR ''-'') (CHR ''/'') date_str)) of
             [Some d, Some mn] \<Rightarrow> Inr (py_date today_year mn d, Some (py_strip (drop e line)))
           | _ \<Rightarrow> Inl ValueError))"

definition month_date_v2 ::
  "int \<Rightarrow> string \<Rightarrow> date option \<times> string option \<Rightarrow> error + (date option \<times> string option)" where
  "month_date_v2 today_year line st =
     (if fst st \<noteq> None then Inr st
      else (case MONTH_PATTERN line of
              None \<Rightarrow> Inr st
            | Some (g1, g2, e) \<Rightarrow>
                (case py_int g1 of
                   None \<Rightarrow> Inl ValueError
                 | Some d \<Rightarrow>
                     (case MONTH_NAMES_v2 (py_lower (py_rstrip_dots g2)) of
                        None \<Rightarrow> Inr st
                      | Some mn \<Rightarrow>
                          if mn = 0 then Inr st
                          else (case py_date today_year mn d of
                                  None \<Rightarrow> Inl ValueError
                                | Some dt \<Rightarrow> Inr (Some dt, Some (py_strip (drop e line))))))))"

definition hyphen_date_v2 ::
  "string \<Rightarrow> date option \<times> string option \<Rightarrow> error + (date option \<times> string option)" where
  "hyphen_date_v2 line st =
     (if fst st \<noteq> None then Inr st
      else (case HYPHEN_PATTERN line of
              None \<Rightarrow> Inr st
            | Some (g1, mon_abbr, yearp, e) \<Rightarrow>
                (case (py_int g1, py_int yearp) of
                   (Some d, Some yp) \<Rightarrow>
                     (case MONTH_NAMES_v2 (py_lower mon_abbr) of
                        None \<Rightarrow> Inr st
                      | Some mn \<Rightarrow>
                          if mn = 0 then Inr st
                          else (case py_date (if length yearp = 4 then yp else 2000 + yp) mn d of
                                  None \<Rightarrow> Inl ValueError
                                | Some dt \<Rightarrow> Inr (Some dt, Some (py_strip (drop e line)))))
                 | _ \<Rightarrow> Inl ValueError)))"

text \<open>The description: instalment marker, text after the first asterisk, leading tokens
  made of digits only dropped, the rest joined by single spaces, and the stripped
  original line when nothing is left.\<close>

definition parse_desc_v2 :: "string \<Rightarrow> string \<Rightarrow> error + (int option \<times> string)" where
  "parse_desc_v2 desc0 original_line =
     (case parse_desc desc0 of
        Inl e \<Rightarrow> Inl e
      | Inr (inst, desc) \<Rightarrow>
          (let cleaned = dropWhile (\<lambda>tok. list_all is_digit tok) (py_split_ws desc);
               desc' = py_join_space cleaned
           in Inr (inst, if desc' = [] then py_strip original_line else desc')))"

definition parse_rest_v2 :: "date \<Rightarrow> string \<Rightarrow> string \<Rightarrow> error + Transaction option" where
  "parse_rest_v2 dt rest original_line =
     (case last_amount rest of
        None \<Rightarrow> Inr None
      | Some (start, amt_str) \<Rightarrow>
          (case py_float (amount_clean amt_str) of
             None \<Rightarrow> Inr None
           | Some v \<Rightarrow>
               (case parse_desc_v2 (py_strip (take start rest)) original_line of
                  Inl e \<Rightarrow> Inl e
                | Inr (inst, desc) \<Rightarrow>
                    Inr (Some \<lparr>date = dt, store_name = desc,
                               amount = (if amount_neg rest start amt_str then - v else v),
                               installment_number = inst\<rparr>))))"

definition parse_line_v2 :: "int \<Rightarrow> string \<Rightarrow> error + Transaction option" where
  "parse_line_v2 today_year original_line =
     (let line = py_strip original_line in
      if line = [] then Inr None
      else (case numeric_date_v2 today_year line of
              Inl e \<Rightarrow> Inl e
            | Inr st1 \<Rightarrow>
                (case month_date_v2 today_year line st1 of
                   Inl e \<Rightarrow> Inl e
                 | Inr st2 \<Rightarrow>
                     (case hyphen_date_v2 line st2 of
                        Inl e \<Rightarrow> Inl e
                      | Inr (Some dt, Some rest) \<Rightarrow>
                          if rest = [] then Inr None else parse_rest_v2 dt rest original_line
                      | Inr _ \<Rightarrow> Inr None))))"

fun parse_loop_v2 :: "int \<Rightarrow> string list \<Rightarrow> Transaction list \<Rightarrow> error + Transaction list" where
  "parse_loop_v2 today_year [] transactions = Inr transactions"
| "parse_loop_v2 today_year (l # ls) transactions =
     (case parse_line_v2 today_year l of
        Inl e \<Rightarrow> Inl e
      | Inr None \<Rightarrow> parse_loop_v2 today_year ls transactions
      | Inr (Some t) \<Rightarrow> parse_loop_v2 today_year ls (transactions @ [t]))"

definition parse_pdf_v2 :: "int \<Rightarrow> string list \<Rightarrow> error + Transaction list" where
  "parse_pdf_v2 today_year lines = parse_loop_v2 today_year lines []"

section \<open>src/database_manager.py: the store\<close>

text \<open>
  The SQLite database as seen through the one connection of \<open>DatabaseManager\<close>: each
  table is the list of its rows in rowid order, and \<open>seq_*\<close> are the counters that
  \<open>AUTOINCREMENT\<close> keeps in \<open>sqlite_sequence\<close>. The constraints of \<open>_create_tables\<close>
  (\<open>UNIQUE\<close>, and the foreign keys, which \<open>PRAGMA foreign_keys=ON\<close> enforces) are
  checked by the statement functions below, which return \<open>Inl IntegrityError\<close> and leave
  the tables as they were, as SQLite does for a failed statement.
\<close>

record category_row =
  c_id :: int
  c_name :: string

record store_row =
  s_id :: int
  s_name :: string
  s_category_id :: "int option"

record statement_row =
  st_id :: int
  st_month :: int
  st_year :: int
  st_card_name :: string
  st_last4digits :: string
  st_file_path :: "string option"

record transaction_row =
  t_id :: int
  t_statement_id :: int
  t_date :: date
  t_store_id :: int
  t_amount :: real
  t_installment_number :: "int option"

record db =
  categories :: "category_row list"
  stores :: "store_row list"
  statements :: "statement_row list"
  transactions :: "transaction_row list"
  seq_categories :: int
  seq_stores :: int
  seq_statements :: int
  seq_transactions :: int

text \<open>The rowid an \<open>AUTOINCREMENT\<close> column gives to a new row: one more than the largest
  rowid the table holds or has ever held.\<close>

definition next_id :: "int \<Rightarrow> int list \<Rightarrow> int" where
  "next_id seq ids = foldl max seq ids + 1"

subsection \<open>Single SQL statements\<close>

text \<open>\<open>INSERT INTO categories(name) VALUES(?)\<close>\<close>

definition insert_category :: "string \<Rightarrow> db \<Rightarrow> error + db" where
  "insert_category name db =
     (if name \<in> set (map c_name (categories db)) then Inl IntegrityError
      else (let i = next_id (seq_categories db) (map c_id (categories db)) in
            Inr (db\<lparr>categories := categories db @ [\<lparr>c_id = i, c_name = name\<rparr>],
                    seq_categories := i\<rparr>)))"

text \<open>\<open>UPDATE stores SET category_id=? WHERE category_id=?\<close>\<close>

definition update_stores_of_category :: "int \<Rightarrow> int \<Rightarrow> db \<Rightarrow> error + db" where
  "update_stores_of_category new old db =
     (if (\<exists>s \<in> set (stores db). s_category_id s = Some old) \<and>
         new \<notin> set (map c_id (categories db))
      then Inl IntegrityError
      else Inr (db\<lparr>stores :=
                  map (\<lambda>s. if s_category_id s = Some old then s\<lparr>s_category_id := Some new\<rparr> else s)
                      (stores db)\<rparr>))"

text \<open>\<open>DELETE FROM categories WHERE id=?\<close>\<close>

definition delete_category_row :: "int \<Rightarrow> db \<Rightarrow> error + db" where
  "delete_category_row cid db =
     (if cid \<in> set (map c_id (categories db)) \<and>
         (\<exists>s \<in> set (stores db). s_category_id s = Some cid)
      then Inl IntegrityError
      else Inr (db\<lparr>categories := filter (\<lambda>c. c_id c \<noteq> cid) (categories db)\<rparr>))"

text \<open>\<open>INSERT INTO stores(name,category_id) VALUES(?,?)\<close>, with \<open>lastrowid\<close>\<close>

definition insert_store :: "string \<Rightarrow> int \<Rightarrow> db \<Rightarrow> error + (int \<times> db)" where
  "insert_store name cid db =
     (if name \<in> set (map s_name (stores db)) \<or> cid \<notin> set (map c_id (categories db))
      then Inl IntegrityError
      else (let i = next_id (seq_stores db) (map s_id (stores db)) in
            Inr (i, db\<lparr>stores := stores db @ [\<lparr>s_id = i, s_name = name, s_category_id = Some cid\<rparr>],
                       seq_stores := i\<rparr>)))"

text \<open>\<open>UPDATE stores SET category_id=? WHERE id=?\<close>\<close>

definition update_store_row :: "int \<Rightarrow> int \<Rightarrow> db \<Rightarrow> error + db" where
  "update_store_row cid sid db =
     (if (\<exists>s \<in> set (stores db). s_id s = sid) \<and> cid \<notin> set (map c_id (categories db))
      then Inl IntegrityError
      else Inr (db\<lparr>stores :=
                  map (\<lambda>s. if s_id s = sid then s\<lparr>s_category_id := Some cid\<rparr> else s)
                      (stores db)\<rparr>))"

text \<open>\<open>INSERT INTO statements(month,year,card_name,last4digits,file_path) VALUES(?,?,?,?,?)\<close>,
  with \<open>lastrowid\<close>\<close>

definition insert_statement ::
  "int \<Rightarrow> int \<Rightarrow> string \<Rightarrow> string \<Rightarrow> string option \<Rightarrow> db \<Rightarrow> error + (int \<times> db)" where
  "insert_statement mo yr card_name last4digits file_path db =
     (if (mo, yr, card_name, last4digits) \<in>
           set (map (\<lambda>r. (st_month r, st_year r, st_card_name r, st_last4digits r)) (statements db))
      then Inl IntegrityError
      else (let i = next_id (seq_statements db) (map st_id (statements db)) in
            Inr (i, db\<lparr>statements := statements db @
                         [\<lparr>st_id = i, st_month = mo, st_year = yr, st_card_name = card_name,
                           st_last4digits = last4digits, st_file_path = file_path\<rparr>],
                       seq_statements := i\<rparr>)))"

text \<open>\<open>INSERT INTO transactions(statement_id,date,store_id,amount,installment_number)
  VALUES(?,?,?,?,?)\<close>\<close>

definition insert_transaction ::
  "int \<Rightarrow> date \<Rightarrow> int \<Rightarrow> real \<Rightarrow> int option \<Rightarrow> db \<Rightarrow> error + db" where
  "insert_transaction sid d store_id amt inst db =
     (if sid \<notin> set (map st_id (statements db)) \<or> store_id \<notin> set (map s_id (stores db))
      then Inl IntegrityError
      else (let i = next_id (seq_transactions db) (map t_id (transactions db)) in
            Inr (db\<lparr>transactions := transactions db @
                      [\<lparr>t_id = i, t_statement_id = sid, t_date = d, t_store_id = store_id,
                        t_amount = amt, t_installment_number = inst\<rparr>],
                    seq_transactions := i\<rparr>)))"

subsection \<open>The methods of \<open>DatabaseManager\<close>\<close>

text \<open>A method returns its result, or the exception it raises, together with the store
  it leaves behind.\<close>

definition empty_db :: db where
  "empty_db = \<lparr>categories = [], stores = [], statements = [], transactions = [],
               seq_categories = 0, seq_stores = 0, seq_statements = 0, seq_transactions = 0\<rparr>"

definition ensure_default_category :: "db \<Rightarrow> db" where
  "ensure_default_category db =
     (if filter (\<lambda>c. c_name c = ''NO ASIGNADA'') (categories db) = []
      then (case insert_category ''NO ASIGNADA'' db of Inr db' \<Rightarrow> db' | Inl e \<Rightarrow> db)
      else db)"

definition ensure_cash_statement :: "db \<Rightarrow> db" where
  "ensure_cash_statement db =
     (if filter (\<lambda>r. st_year r = 1900 \<and> st_month r = 1 \<and> st_card_name r = ''EFECTIVO'' \<and>
                     st_last4digits r = []) (statements db) = []
      then (case insert_statement 1 1900 ''EFECTIVO'' [] None db of
              Inr (i, db') \<Rightarrow> db' | Inl e \<Rightarrow> db)
      else db)"

text \<open>\<open>__init__\<close> on the store found in the database file.\<close>

definition init :: "db \<Rightarrow> db" where
  "init db = ensure_cash_statement (ensure_default_category db)"

text \<open>\<open>c.fetchone()[0]\<close>: with no row, \<open>fetchone\<close> gives \<open>None\<close> and the subscript raises
  \<open>TypeError\<close>.\<close>

definition get_default_category_id :: "db \<Rightarrow> error + int" where
  "get_default_category_id db =
     (case filter (\<lambda>c. c_name c = ''NO ASIGNADA'') (categories db) of
        [] \<Rightarrow> Inl TypeError
      | c # _ \<Rightarrow> Inr (c_id c))"

definition add_category :: "string \<Rightarrow> db \<Rightarrow> (error + unit) \<times> db" where
  "add_category name db =
     (case insert_category name db of
        Inl e \<Rightarrow> (Inl ValueError, db)
      | Inr db' \<Rightarrow> (Inr (), db'))"

definition delete_category :: "int \<Rightarrow> db \<Rightarrow> (error + unit) \<times> db" where
  "delete_category cid db =
     (case get_default_category_id db of
        Inl e \<Rightarrow> (Inl e, db)
      | Inr dflt \<Rightarrow>
          if cid = dflt then (Inl ValueError, db)
          else (case update_stores_of_category dflt cid db of
                  Inl e \<Rightarrow> (Inl e, db)
                | Inr db1 \<Rightarrow>
                    (case delete_category_row cid db1 of
                       Inl e \<Rightarrow> (Inl e, db1)
                     | Inr db2 \<Rightarrow> (Inr (), db2))))"

definition get_store_id :: "string \<Rightarrow> db \<Rightarrow> (error + int) \<times> db" where
  "get_store_id name db =
     (case filter (\<lambda>s. s_name s = name) (stores db) of
        row # _ \<Rightarrow> (Inr (s_id row), db)
      | [] \<Rightarrow>
          (case get_default_category_id db of
             Inl e \<Rightarrow> (Inl e, db)
           | Inr dflt \<Rightarrow>
               (case insert_store name dflt db of
                  Inl e \<Rightarrow> (Inl e, db)
                | Inr (lastrowid, db') \<Rightarrow> (Inr lastrowid, db'))))"

definition update_store_category :: "int \<Rightarrow> int \<Rightarrow> db \<Rightarrow> (error + unit) \<times> db" where
  "update_store_category sid cid db =
     (case update_store_row cid sid db of
        Inl e \<Rightarrow> (Inl e, db)
      | Inr db' \<Rightarrow> (Inr (), db'))"

text \<open>\<open>SELECT c.id,c.name FROM stores s JOIN categories c ON s.category_id=c.id WHERE
  s.id=?\<close>\<close>

definition store_category_rows :: "int \<Rightarrow> db \<Rightarrow> (int \<times> string) list" where
  "store_category_rows sid db =
     [(c_id c, c_name c). s \<leftarrow> stores db, c \<leftarrow> categories db,
        s_category_id s = Some (c_id c), s_id s = sid]"

text \<open>\<open>return c.fetchone() or (self.get_default_category_id(), "NO ASIGNADA")\<close>\<close>

definition get_store_category :: "int \<Rightarrow> db \<Rightarrow> error + (int \<times> string)" where
  "get_store_category sid db =
     (case store_category_rows sid db of
        row # _ \<Rightarrow> Inr row
      | [] \<Rightarrow>
          (case get_default_category_id db of
             Inl e \<Rightarrow> Inl e
           | Inr dflt \<Rightarrow> Inr (dflt, ''NO ASIGNADA'')))"

definition add_statement ::
  "int \<Rightarrow> int \<Rightarrow> string \<Rightarrow> string \<Rightarrow> string \<Rightarrow> db \<Rightarrow> (error + int) \<times> db" where
  "add_statement mo yr card_name last4digits file_path db =
     (case insert_statement mo yr card_name last4digits (Some file_path) db of
        Inl e \<Rightarrow> (Inl ValueError, db)
      | Inr (lastrowid, db') \<Rightarrow> (Inr lastrowid, db'))"

fun add_transactions :: "int \<Rightarrow> Transaction list \<Rightarrow> db \<Rightarrow> (error + unit) \<times> db" where
  "add_transactions sid [] db = (Inr (), db)"
| "add_transactions sid (t # txs) db =
     (case get_store_id (store_name t) db of
        (Inl e, db1) \<Rightarrow> (Inl e, db1)
      | (Inr store_id, db1) \<Rightarrow>
          (case insert_transaction sid (date t) store_id (amount t) (installment_number t) db1 of
             Inl e \<Rightarrow> (Inl e, db1)
           | Inr db2 \<Rightarrow> add_transactions sid txs db2))"

definition add_manual_transaction ::
  "int \<Rightarrow> date \<Rightarrow> string \<Rightarrow> real \<Rightarrow> db \<Rightarrow> (error + unit) \<times> db" where
  "add_manual_transaction sid d name amt db =
     (case get_store_id name db of
        (Inl e, db1) \<Rightarrow> (Inl e, db1)
      | (Inr store_id, db1) \<Rightarrow>
          (case insert_transaction sid d store_id amt None db1 of
             Inl e \<Rightarrow> (Inl e, db1)
           | Inr db2 \<Rightarrow> (Inr (), db2)))"

text \<open>\<open>FROM transactions t JOIN stores s ON t.store_id=s.id JOIN categories c ON
  s.category_id=c.id\<close>\<close>

definition joined :: "db \<Rightarrow> (transaction_row \<times> store_row \<times> category_row) list" where
  "joined db =
     [(t, s, c). t \<leftarrow> transactions db,
        s \<leftarrow> stores db, t_store_id t = s_id s,
        c \<leftarrow> categories db, s_category_id s = Some (c_id c)]"

text \<open>\<open>SELECT c.name,SUM(t.amount) \<dots> GROUP BY c.id\<close>: one row for each \<open>c.id\<close> among
  the joined rows, with the name of the group's category and the sum of its amounts.\<close>

definition group_by_category ::
  "(transaction_row \<times> store_row \<times> category_row) list \<Rightarrow> (string \<times> real) list" where
  "group_by_category rows =
     map (\<lambda>i. let g = filter (\<lambda>(t, s, c). c_id c = i) rows in
               (c_name (snd (snd (hd g))), sum_list (map (\<lambda>(t, s, c). t_amount t) g)))
         (sort (remdups (map (\<lambda>(t, s, c). c_id c) rows)))"

text \<open>\<open>ORDER BY SUM(t.amount) DESC\<close>: the rows by descending total. The query names no
  second key: the rows of \<open>GROUP BY c.id\<close> reach the sort in ascending \<open>c.id\<close>, and SQLite
  returns rows of equal total in the reverse of that order, the larger \<open>c.id\<close> first.
  \<open>sort_key\<close> is the stable insertion sort into ascending order, so its reverse is that
  arrangement.\<close>

definition order_by_total_desc :: "(string \<times> real) list \<Rightarrow> (string \<times> real) list \<Rightarrow> bool" where
  "order_by_total_desc rows out = (out = rev (sort_key snd rows))"

text \<open>\<open>get_category_sums sid db out\<close>: \<open>out\<close> is the list that \<open>fetchall()\<close> returns.\<close>

definition get_category_sums :: "int \<Rightarrow> db \<Rightarrow> (string \<times> real) list \<Rightarrow> bool" where
  "get_category_sums sid db out =
     order_by_total_desc
       (group_by_category (filter (\<lambda>(t, s, c). t_statement_id t = sid) (joined db))) out"


section \<open>src/app.py: statements sent straight to the connection\<close>

text \<open>\<open>DELETE FROM transactions WHERE id=?\<close> (\<open>delete_manual_transaction_ui\<close>)\<close>

definition delete_transaction_row :: "int \<Rightarrow> db \<Rightarrow> db" where
  "delete_transaction_row txn_id db =
     db\<lparr>transactions := filter (\<lambda>t. t_id t \<noteq> txn_id) (transactions db)\<rparr>"

text \<open>\<open>DELETE FROM statements WHERE id=?\<close> (\<open>delete_statement\<close>); the foreign key of
  \<open>transactions\<close> is \<open>ON DELETE CASCADE\<close>.\<close>

definition delete_statement_row :: "int \<Rightarrow> db \<Rightarrow> db" where
  "delete_statement_row sid db =
     (if sid \<in> set (map st_id (statements db))
      then db\<lparr>statements := filter (\<lambda>r. st_id r \<noteq> sid) (statements db),
              transactions := filter (\<lambda>t. t_statement_id t \<noteq> sid) (transactions db)\<rparr>
      else db)"

section \<open>Sequences of operations on one store\<close>

datatype op =
    Add_category string
  | Delete_category int
  | Get_store_id string
  | Update_store_category int int
  | Add_statement int int string string string
  | Add_transactions int "Transaction list"
  | Add_manual_transaction int date string real
  | Delete_transaction int
  | Delete_statement int

text \<open>The store an operation leaves behind, whether it returned or raised.\<close>

fun apply_op :: "op \<Rightarrow> db \<Rightarrow> db" where
  "apply_op (Add_category name) db = snd (add_category name db)"
| "apply_op (Delete_category cid) db = snd (delete_category cid db)"
| "apply_op (Get_store_id name) db = snd (get_store_id name db)"
| "apply_op (Update_store_category sid cid) db = snd (update_store_category sid cid db)"
| "apply_op (Add_statement mo yr cn l4 path) db = snd (add_statement mo yr cn l4 path db)"
| "apply_op (Add_transactions sid txs) db = snd (add_transactions sid txs db)"
| "apply_op (Add_manual_transaction sid d name amt) db =
     snd (add_manual_transaction sid d name amt db)"
| "apply_op (Delete_transaction txn_id) db = delete_transaction_row txn_id db"
| "apply_op (Delete_statement sid) db = delete_statement_row sid db"

fun run :: "op list \<Rightarrow> db \<Rightarrow> db" where
  "run [] db = db"
| "run (a # ops) db = run ops (apply_op a db)"

text \<open>The columns of \<open>stores\<close> that identify a merchant.\<close>

definition store_keys :: "db \<Rightarrow> (int \<times> string) list" where
  "store_keys db = map (\<lambda>s. (s_id s, s_name s)) (stores db)"

section \<open>A store used in the examples\<close>

definition example_db :: db where
  "example_db =
     \<lparr>categories = [\<lparr>c_id = 1, c_name = ''NO ASIGNADA''\<rparr>, \<lparr>c_id = 2, c_name = ''Comida''\<rparr>,
                     \<lparr>c_id = 3, c_name = ''Nafta''\<rparr>],
      stores = [\<lparr>s_id = 1, s_name = ''LA FLOR'', s_category_id = Some 2\<rparr>,
                \<lparr>s_id = 2, s_name = ''YPF'', s_category_id = Some 3\<rparr>,
                \<lparr>s_id = 3, s_name = ''KIOSCO'', s_category_id = Some 2\<rparr>],
      statements = [\<lparr>st_id = 1, st_month = 1, st_year = 1900, st_card_name = ''EFECTIVO'',
                      st_last4digits = [], st_file_path = None\<rparr>,
                    \<lparr>st_id = 2, st_month = 3, st_year = 2024, st_card_name = ''VISA'',
                      st_last4digits = [], st_file_path = Some ''2024-03.pdf''\<rparr>],
      transactions = [\<lparr>t_id = 1, t_statement_id = 2, t_date = \<lparr>year = 2024, month = 3, day = 5\<rparr>,
                        t_store_id = 1, t_amount = 40, t_installment_number = Some 3\<rparr>,
                      \<lparr>t_id = 2, t_statement_id = 2, t_date = \<lparr>year = 2024, month = 3, day = 7\<rparr>,
                        t_store_id = 2, t_amount = 30, t_installment_number = None\<rparr>,
                      \<lparr>t_id = 3, t_statement_id = 2, t_date = \<lparr>year = 2024, month = 3, day = 9\<rparr>,
                        t_store_id = 3, t_amount = - 10, t_installment_number = None\<rparr>],
      seq_categories = 3, seq_stores = 3, seq_statements = 2, seq_transactions = 3\<rparr>"

section \<open>What the sums are compared with\<close>

text \<open>
  The words of the specification for the aggregation: the category of a merchant is the
  one its row references; the transactions of a category in a scope (one statement, or
  all) are those whose merchant references it; the total is the plain sum of their
  signed amounts. The primary keys of \<open>categories\<close> and \<open>stores\<close> are \<open>db_ok\<close>.
\<close>

definition db_ok :: "db \<Rightarrow> bool" where
  "db_ok db = (distinct (map c_id (categories db)) \<and> distinct (map s_id (stores db)))"

definition spec_store_category :: "db \<Rightarrow> int \<Rightarrow> int option" where
  "spec_store_category db sid =
     (case find (\<lambda>s. s_id s = sid) (stores db) of
        None \<Rightarrow> None
      | Some s \<Rightarrow> s_category_id s)"

definition spec_category_transactions ::
  "(transaction_row \<Rightarrow> bool) \<Rightarrow> db \<Rightarrow> int \<Rightarrow> transaction_row list" where
  "spec_category_transactions scope db cid =
     filter (\<lambda>t. scope t \<and> spec_store_category db (t_store_id t) = Some cid) (transactions db)"

definition spec_category_total :: "(transaction_row \<Rightarrow> bool) \<Rightarrow> db \<Rightarrow> int \<Rightarrow> real" where
  "spec_category_total scope db cid =
     sum_list (map t_amount (spec_category_transactions scope db cid))"


text \<open>The joined row of a transaction, found by key: with unique ids it is the only
  row the join has for the transaction.\<close>

definition joined_row :: "db \<Rightarrow> transaction_row \<Rightarrow> (transaction_row \<times> store_row \<times> category_row) option" where
  "joined_row db t =
     (case find (\<lambda>s. s_id s = t_store_id t) (stores db) of
        None \<Rightarrow> None
      | Some s \<Rightarrow>
          (case s_category_id s of
             None \<Rightarrow> None
           | Some k \<Rightarrow>
               (case find (\<lambda>c. c_id c = k) (categories db) of
                  None \<Rightarrow> None
                | Some c \<Rightarrow> Some (t, s, c))))"

text \<open>The transaction joins with the category of id \<open>i\<close>.\<close>

definition joins_category :: "db \<Rightarrow> int \<Rightarrow> transaction_row \<Rightarrow> bool" where
  "joins_category db i t = (case joined_row db t of None \<Rightarrow> False | Some r \<Rightarrow> c_id (snd (snd r)) = i)"

text \<open>What the theorems on the store assume: unique ids and a default category.\<close>

definition store_inv :: "db \<Rightarrow> bool" where
  "store_inv db = (db_ok db \<and> (\<exists>d. get_default_category_id db = Inr d))"

section \<open>Properties of the parser\<close>

declare finditer_amount.simps [simp del]

lemma amount_match_unfold:
  "amount_match s = Some n \<longleftrightarrow>
     s \<noteq> [] \<and> is_digit (hd s) \<and>
     3 \<le> length (drop (length (amount_run (tl s))) (tl s)) \<and>
     drop (length (amount_run (tl s))) (tl s) ! 0 = CHR '','' \<and>
     is_digit (drop (length (amount_run (tl s))) (tl s) ! 1) \<and>
     is_digit (drop (length (amount_run (tl s))) (tl s) ! 2) \<and>
     n = length (amount_run (tl s)) + 4 +
         (if 3 < length (drop (length (amount_run (tl s))) (tl s)) \<and>
             drop (length (amount_run (tl s))) (tl s) ! 3 = CHR ''-'' then 1 else 0)"
  unfolding amount_match_def Let_def by (cases n) auto

lemma amount_run_le: "length (amount_run r) \<le> length r"
  unfolding amount_run_def by (rule length_takeWhile_le)

lemma amount_match_pos: "amount_match s = Some n \<Longrightarrow> 0 < n \<and> n \<le> length s"
proof -
  assume a: "amount_match s = Some n"
  define rn where "rn = amount_run (tl s)"
  define t where "t = drop (length rn) (tl s)"
  have "length rn \<le> length (tl s)"
    unfolding rn_def by (rule amount_run_le)
  then have lr: "length (tl s) = length rn + length t"
    unfolding t_def by simp
  from a have ne: "s \<noteq> []" and t3: "3 \<le> length t"
    and n: "n = length rn + 4 + (if 3 < length t \<and> t ! 3 = CHR ''-'' then 1 else 0)"
    unfolding amount_match_unfold rn_def t_def by blast+
  from ne lr have "length s = Suc (length rn + length t)" by (cases s) simp_all
  with t3 n show ?thesis by (simp split: if_splits)
qed


subsection \<open>A day that the named month does not have\<close>

lemma strip_30_feb: "py_strip ''30 Feb market 1.000,00-'' = ''30 Feb market 1.000,00-''"
  by code_simp

lemma date_pattern_30_feb: "DATE_PATTERN ''30 Feb market 1.000,00-'' = None"
  by code_simp

lemma month_pattern_30_feb:
  "MONTH_PATTERN ''30 Feb market 1.000,00-'' = Some (''30'', ''Feb'', 6)"
  by code_simp

lemma py_int_30: "py_int ''30'' = Some 30"
  by code_simp

lemma month_names_feb: "MONTH_NAMES (take 3 (py_lower ''Feb'')) = Some 2"
  by code_simp

lemma no_feb_30: "py_date y 2 30 = None"
  by (simp add: py_date_def days_in_month_def)

lemma parse_line_30_feb: "parse_line y ''30 Feb market 1.000,00-'' = Inl ValueError"
  unfolding parse_line_def Let_def strip_30_feb numeric_date_def date_pattern_30_feb
    month_date_def month_pattern_30_feb
  by (simp add: py_int_30 month_names_feb no_feb_30)

text \<open>
  C1. A line whose date form is recognised but names a day the month does not have is to
  be skipped without an exception. For the day and month-name form the code does not do
  so: on the line \<open>30 Feb market 1.000,00-\<close>, in every year, the \<open>ValueError\<close> of
  \<open>datetime.date\<close> leaves \<open>parse_pdf\<close>, and with it the transactions of all other lines
  are lost.
\<close>

theorem C1_month_name_invalid_day_raises:
  "parse_pdf y [''30 Feb market 1.000,00-''] = Inl ValueError"
  by (simp add: parse_pdf_def parse_line_30_feb)

section \<open>Properties of the store\<close>

lemma example_default: "get_default_category_id example_db = Inr 1"
  by (simp add: get_default_category_id_def example_db_def)

lemma default_in_categories:
  "get_default_category_id db = Inr d \<Longrightarrow> d \<in> set (map c_id (categories db))"
proof -
  assume a: "get_default_category_id db = Inr d"
  then obtain c cs where f: "filter (\<lambda>c. c_name c = ''NO ASIGNADA'') (categories db) = c # cs"
    and d: "d = c_id c"
    by (auto simp: get_default_category_id_def split: list.splits)
  have "c \<in> set (filter (\<lambda>c. c_name c = ''NO ASIGNADA'') (categories db))"
    unfolding f by simp
  then show ?thesis using d by auto
qed

lemma default_after_filter:
  assumes "get_default_category_id db = Inr d" and "cid \<noteq> d"
    and c': "categories db' = filter (\<lambda>c. c_id c \<noteq> cid) (categories db)"
  shows "get_default_category_id db' = Inr d"
proof -
  from assms(1) obtain c cs
    where f: "filter (\<lambda>c. c_name c = ''NO ASIGNADA'') (categories db) = c # cs"
    and d: "d = c_id c"
    by (auto simp: get_default_category_id_def split: list.splits)
  have "filter (\<lambda>c. c_name c = ''NO ASIGNADA'') (filter (\<lambda>c. c_id c \<noteq> cid) (categories db))
      = filter (\<lambda>c. c_id c \<noteq> cid) (filter (\<lambda>c. c_name c = ''NO ASIGNADA'') (categories db))"
    by (simp add: conj_commute)
  also have "\<dots> = c # filter (\<lambda>c. c_id c \<noteq> cid) cs"
    unfolding f using assms(2) d by simp
  finally show ?thesis using d by (simp add: get_default_category_id_def c')
qed

lemma map_reassign_none:
  "cid \<noteq> d \<Longrightarrow>
   \<forall>s \<in> set (map (\<lambda>s. if s_category_id s = Some cid then s\<lparr>s_category_id := Some d\<rparr> else s) ss).
     s_category_id s \<noteq> Some cid"
  by auto

lemma map_reassign_id:
  "\<forall>s \<in> set ss. s_category_id s \<noteq> Some cid \<Longrightarrow>
   map (\<lambda>s. if s_category_id s = Some cid then s\<lparr>s_category_id := Some d\<rparr> else s) ss = ss"
  by (induction ss) auto

lemma map_reassign_count:
  "cid \<noteq> d \<Longrightarrow>
   length (filter (\<lambda>s. s_category_id s = Some d)
      (map (\<lambda>s. if s_category_id s = Some cid then s\<lparr>s_category_id := Some d\<rparr> else s) ss)) =
   length (filter (\<lambda>s. s_category_id s = Some d) ss) +
   length (filter (\<lambda>s. s_category_id s = Some cid) ss)"
  by (induction ss) auto

subsection \<open>Deleting a category\<close>

text \<open>
  C4, as the code has it. Deleting a category other than the default one returns
  normally; every merchant that pointed at the category points at the default category
  afterwards (the N merchants of the category are added to those of the default
  category), all other merchants are untouched, the category row is gone and no merchant
  references it. Deleting the same id once more does not fail: it returns normally and
  leaves the store as it is.
\<close>

theorem C4_delete_category_reassigns:
  assumes "get_default_category_id db = Inr d" and "cid \<noteq> d"
  shows "\<exists>db'. delete_category cid db = (Inr (), db') \<and>
           stores db' = map (\<lambda>s. if s_category_id s = Some cid
                                   then s\<lparr>s_category_id := Some d\<rparr> else s) (stores db) \<and>
           length (filter (\<lambda>s. s_category_id s = Some d) (stores db')) =
             length (filter (\<lambda>s. s_category_id s = Some d) (stores db)) +
             length (filter (\<lambda>s. s_category_id s = Some cid) (stores db)) \<and>
           categories db' = filter (\<lambda>c. c_id c \<noteq> cid) (categories db) \<and>
           (\<forall>s \<in> set (stores db'). s_category_id s \<noteq> Some cid) \<and>
           cid \<notin> set (map c_id (categories db')) \<and>
           delete_category cid db' = (Inr (), db')"
proof -
  define ss where
    "ss = map (\<lambda>s. if s_category_id s = Some cid then s\<lparr>s_category_id := Some d\<rparr> else s)
              (stores db)"
  define cs where "cs = filter (\<lambda>c. c_id c \<noteq> cid) (categories db)"
  define db1 where "db1 = db\<lparr>stores := ss\<rparr>"
  define db2 where "db2 = db1\<lparr>categories := cs\<rparr>"
  have s2: "stores db2 = ss" and c2: "categories db2 = cs"
    and s1: "stores db1 = ss" and c1: "categories db1 = categories db"
    by (simp_all add: db2_def db1_def)
  have din: "d \<in> set (map c_id (categories db))"
    using assms(1) by (rule default_in_categories)
  have u: "update_stores_of_category d cid db = Inr db1"
    using din unfolding update_stores_of_category_def db1_def ss_def by simp
  have none: "\<forall>s \<in> set ss. s_category_id s \<noteq> Some cid"
    unfolding ss_def using assms(2) by (rule map_reassign_none)
  have gone: "cid \<notin> set (map c_id cs)"
    unfolding cs_def by auto
  have r: "delete_category_row cid db1 = Inr db2"
    using none unfolding delete_category_row_def s1 c1 db2_def cs_def by simp
  have first: "delete_category cid db = (Inr (), db2)"
    using assms u r by (simp add: delete_category_def)
  have def2: "get_default_category_id db2 = Inr d"
    by (rule default_after_filter [OF assms]) (simp add: c2 cs_def)
  have "update_stores_of_category d cid db2 = Inr (db2\<lparr>stores := ss\<rparr>)"
    using none unfolding update_stores_of_category_def s2 map_reassign_id [OF none] by simp
  moreover have "db2\<lparr>stores := ss\<rparr> = db2"
    by (simp add: db2_def db1_def)
  ultimately have u2: "update_stores_of_category d cid db2 = Inr db2"
    by simp
  have "filter (\<lambda>c. c_id c \<noteq> cid) cs = cs"
    unfolding cs_def by simp
  then have "db2\<lparr>categories := filter (\<lambda>c. c_id c \<noteq> cid) (categories db2)\<rparr> = db2"
    unfolding c2 by (simp add: db2_def)
  then have r2: "delete_category_row cid db2 = Inr db2"
    using gone unfolding delete_category_row_def c2 by simp
  have second: "delete_category cid db2 = (Inr (), db2)"
    using def2 assms(2) u2 r2 by (simp add: delete_category_def)
  show ?thesis
  proof (intro exI [of _ db2] conjI)
    show "delete_category cid db = (Inr (), db2)" by (rule first)
    show "stores db2 = map (\<lambda>s. if s_category_id s = Some cid
                                   then s\<lparr>s_category_id := Some d\<rparr> else s) (stores db)"
      unfolding s2 ss_def ..
    show "length (filter (\<lambda>s. s_category_id s = Some d) (stores db2)) =
             length (filter (\<lambda>s. s_category_id s = Some d) (stores db)) +
             length (filter (\<lambda>s. s_category_id s = Some cid) (stores db))"
      unfolding s2 ss_def using assms(2) by (rule map_reassign_count)
    show "categories db2 = filter (\<lambda>c. c_id c \<noteq> cid) (categories db)"
      unfolding c2 cs_def ..
    show "\<forall>s \<in> set (stores db2). s_category_id s \<noteq> Some cid"
      unfolding s2 by (rule none)
    show "cid \<notin> set (map c_id (categories db2))"
      unfolding c2 by (rule gone)
    show "delete_category cid db2 = (Inr (), db2)" by (rule second)
  qed
qed

theorem C4_delete_category_reassigns_witness:
  "get_default_category_id example_db = Inr 1 \<and> (2::int) \<noteq> 1 \<and>
   (\<exists>db'. delete_category 2 example_db = (Inr (), db') \<and>
           stores db' = map (\<lambda>s. if s_category_id s = Some 2
                                   then s\<lparr>s_category_id := Some 1\<rparr> else s) (stores example_db) \<and>
           length (filter (\<lambda>s. s_category_id s = Some 1) (stores db')) =
             length (filter (\<lambda>s. s_category_id s = Some 1) (stores example_db)) +
             length (filter (\<lambda>s. s_category_id s = Some 2) (stores example_db)) \<and>
           categories db' = filter (\<lambda>c. c_id c \<noteq> 2) (categories example_db) \<and>
           (\<forall>s \<in> set (stores db'). s_category_id s \<noteq> Some 2) \<and>
           2 \<notin> set (map c_id (categories db')) \<and>
           delete_category 2 db' = (Inr (), db'))"
proof -
  have h: "(2::int) \<noteq> 1" by simp
  show ?thesis
    using C4_delete_category_reassigns [OF example_default h] example_default h by blast
qed

text \<open>
  C4, as the claim states it, fails in its last part: in the example store, category 2
  (two merchants) is deleted, and the second call on the same id returns normally.
\<close>

theorem C4_second_delete_does_not_fail:
  "fst (delete_category 2 example_db) = Inr () \<and>
   fst (delete_category 2 (snd (delete_category 2 example_db))) = Inr ()"
  by code_simp

text \<open>
  C5. Whatever the store holds, \<open>delete_category\<close> on the id of the default category
  raises \<open>ValueError\<close> and leaves the whole store, the category table included, as it was;
  no condition on the merchants is needed.
\<close>

theorem C5_delete_default_category_fails:
  "get_default_category_id db = Inr d \<Longrightarrow>
   delete_category d db = (Inl ValueError, db) \<and>
   get_default_category_id (snd (delete_category d db)) = Inr d"
  by (simp add: delete_category_def)

theorem C5_delete_default_category_fails_witness:
  "get_default_category_id example_db = Inr 1 \<and>
   delete_category 1 example_db = (Inl ValueError, example_db) \<and>
   get_default_category_id (snd (delete_category 1 example_db)) = Inr 1"
  using C5_delete_default_category_fails [of example_db 1] example_default by simp

subsection \<open>The category of a merchant\<close>

text \<open>
  C10. For a store id that has no row, or whose row has no category row to join with
  (a NULL or dangling \<open>category_id\<close>), \<open>get_store_category\<close> returns the id of the default
  category paired with the name \<open>NO ASIGNADA\<close>.
\<close>

theorem C10_get_store_category_fallback:
  assumes "get_default_category_id db = Inr d"
    and "\<forall>s \<in> set (stores db). s_id s = sid \<longrightarrow>
           (\<forall>c \<in> set (categories db). s_category_id s \<noteq> Some (c_id c))"
  shows "get_store_category sid db = Inr (d, ''NO ASIGNADA'')"
proof -
  have "store_category_rows sid db = []"
    using assms(2) by (auto simp: store_category_rows_def)
  then show ?thesis using assms(1) by (simp add: get_store_category_def)
qed

theorem C10_get_store_category_fallback_witness:
  "get_default_category_id example_db = Inr 1 \<and>
   99 \<notin> set (map s_id (stores example_db)) \<and>
   get_store_category 99 example_db = Inr (1, ''NO ASIGNADA'')"
proof -
  have h: "\<forall>s \<in> set (stores example_db). s_id s = 99 \<longrightarrow>
      (\<forall>c \<in> set (categories example_db). s_category_id s \<noteq> Some (c_id c))"
    by (simp add: example_db_def)
  have n: "99 \<notin> set (map s_id (stores example_db))"
    by (simp add: example_db_def)
  show ?thesis
    using C10_get_store_category_fallback [OF example_default h] example_default n by blast
qed

subsection \<open>Resolving a merchant\<close>

lemma foldl_max_ge: "(seq::int) \<le> foldl max seq ids \<and> (\<forall>x \<in> set ids. x \<le> foldl max seq ids)"
proof (induction ids arbitrary: seq)
  case Nil
  show ?case by simp
next
  case (Cons a ids)
  from Cons [of "max seq a"] show ?case by auto
qed

lemma next_id_fresh: "next_id seq ids \<notin> set ids"
  using foldl_max_ge [of seq ids] by (auto simp: next_id_def)

lemma find_filter: "find P xs = (case filter P xs of [] \<Rightarrow> None | x # _ \<Rightarrow> Some x)"
  by (induction xs) auto

lemma get_store_id_hit:
  "find (\<lambda>s. s_name s = name) (stores db) = Some s \<Longrightarrow> get_store_id name db = (Inr (s_id s), db)"
  by (simp add: get_store_id_def find_filter split: list.splits)

lemma get_store_id_miss:
  assumes "name \<notin> set (map s_name (stores db))" and "get_default_category_id db = Inr d"
  shows "get_store_id name db =
     (Inr (next_id (seq_stores db) (map s_id (stores db))),
      db\<lparr>stores := stores db @ [\<lparr>s_id = next_id (seq_stores db) (map s_id (stores db)), s_name = name, s_category_id = Some d\<rparr>],
         seq_stores := next_id (seq_stores db) (map s_id (stores db))\<rparr>)"
proof -
  have f: "filter (\<lambda>s. s_name s = name) (stores db) = []"
    using assms(1) by (auto simp: filter_empty_conv)
  have din: "d \<in> set (map c_id (categories db))"
    using assms(2) by (rule default_in_categories)
  show ?thesis
    using assms din unfolding get_store_id_def f insert_store_def Let_def by simp
qed

lemma find_keys:
  "map_option s_id (find (\<lambda>s. s_name s = name) ss) =
   map_option fst (find (\<lambda>k. snd k = name) (map (\<lambda>s. (s_id s, s_name s)) ss))"
  by (induction ss) auto

lemma find_append_Some: "find P xs = Some x \<Longrightarrow> find P (xs @ ys) = Some x"
  by (induction xs) (auto split: if_splits)

lemma find_append_None: "find P xs = None \<Longrightarrow> find P (xs @ ys) = find P ys"
  by (induction xs) (auto split: if_splits)

lemma first_id_extends:
  assumes "store_keys db' = store_keys db @ extra"
    and "map_option s_id (find (\<lambda>s. s_name s = name) (stores db)) = Some i"
  shows "map_option s_id (find (\<lambda>s. s_name s = name) (stores db')) = Some i"
proof -
  from assms(2) obtain k where k: "find (\<lambda>k. snd k = name) (store_keys db) = Some k" and i: "fst k = i"
    unfolding find_keys store_keys_def by auto
  have "find (\<lambda>k. snd k = name) (store_keys db') = Some k"
    unfolding assms(1) using k by (rule find_append_Some)
  then show ?thesis unfolding find_keys [of name "stores db'"] store_keys_def [symmetric] using i by simp
qed

lemma first_id_returns:
  assumes "map_option s_id (find (\<lambda>s. s_name s = name) (stores db)) = Some i"
  shows "get_store_id name db = (Inr i, db)"
proof -
  from assms obtain s where "find (\<lambda>s. s_name s = name) (stores db) = Some s" and "s_id s = i"
    by auto
  then show ?thesis using get_store_id_hit [of name db s] by simp
qed

lemma name_in_find: "name \<in> set (map s_name ss) \<Longrightarrow> \<exists>s \<in> set ss. s_name s = name \<and> find (\<lambda>s. s_name s = name) ss = Some s"
  by (induction ss) auto

lemma get_store_id_keys: "\<exists>extra. store_keys (snd (get_store_id name db)) = store_keys db @ extra"
proof (cases "name \<in> set (map s_name (stores db))")
  case True
  then obtain s where "find (\<lambda>s. s_name s = name) (stores db) = Some s"
    using name_in_find by blast
  then show ?thesis using get_store_id_hit [of name db s] by simp
next
  case False
  show ?thesis
  proof (cases "get_default_category_id db")
    case (Inl e)
    have f: "filter (\<lambda>s. s_name s = name) (stores db) = []"
      using False by (auto simp: filter_empty_conv)
    show ?thesis unfolding get_store_id_def f using Inl by simp
  next
    case (Inr d)
    show ?thesis unfolding get_store_id_miss [OF False Inr] by (simp add: store_keys_def)
  qed
qed

lemma get_store_id_first:
  assumes "get_store_id name db = (Inr i, db1)"
  shows "map_option s_id (find (\<lambda>s. s_name s = name) (stores db1)) = Some i"
proof (cases "name \<in> set (map s_name (stores db))")
  case True
  then obtain s where s: "find (\<lambda>s. s_name s = name) (stores db) = Some s"
    using name_in_find by blast
  with assms get_store_id_hit [of name db s] show ?thesis by simp
next
  case False
  have f: "filter (\<lambda>s. s_name s = name) (stores db) = []"
    using False by (auto simp: filter_empty_conv)
  show ?thesis
  proof (cases "get_default_category_id db")
    case (Inl e)
    with assms show ?thesis unfolding get_store_id_def f by simp
  next
    case (Inr d)
    have n: "find (\<lambda>s. s_name s = name) (stores db) = None"
      using False by (auto simp: find_None_iff)
    have "find (\<lambda>s. s_name s = name) (stores db @ [\<lparr>s_id = i, s_name = name, s_category_id = Some d\<rparr>])
           = Some \<lparr>s_id = i, s_name = name, s_category_id = Some d\<rparr>"
      using find_append_None [OF n] by simp
    then show ?thesis using assms unfolding get_store_id_miss [OF False Inr] by auto
  qed
qed


lemma keys_same: "stores db' = stores db \<Longrightarrow> \<exists>extra. store_keys db' = store_keys db @ extra"
  by (simp add: store_keys_def)

lemma keys_map:
  "stores db' = map f (stores db) \<Longrightarrow> (\<And>s. s_id (f s) = s_id s \<and> s_name (f s) = s_name s) \<Longrightarrow>
   \<exists>extra. store_keys db' = store_keys db @ extra"
  by (rule exI [of _ "[]"]) (simp add: store_keys_def comp_def)

lemma keys_trans:
  "\<exists>e. store_keys db1 = store_keys db @ e \<Longrightarrow> \<exists>e. store_keys db2 = store_keys db1 @ e \<Longrightarrow>
   \<exists>e. store_keys db2 = store_keys db @ e"
  by auto

lemma add_category_keys: "\<exists>e. store_keys (snd (add_category name db)) = store_keys db @ e"
  by (rule keys_same) (simp add: add_category_def insert_category_def Let_def split: sum.splits)

lemma update_stores_of_category_keys:
  "update_stores_of_category new old db = Inr db1 \<Longrightarrow> \<exists>e. store_keys db1 = store_keys db @ e"
  by (rule keys_map [where f = "\<lambda>s. if s_category_id s = Some old then s\<lparr>s_category_id := Some new\<rparr> else s"])
     (auto simp: update_stores_of_category_def split: if_splits)

lemma delete_category_row_keys:
  "delete_category_row cid db = Inr db1 \<Longrightarrow> \<exists>e. store_keys db1 = store_keys db @ e"
  by (rule keys_same) (auto simp: delete_category_row_def split: if_splits)

lemma delete_category_keys: "\<exists>e. store_keys (snd (delete_category cid db)) = store_keys db @ e"
proof -
  have refl: "\<exists>e. store_keys db = store_keys db @ e" by simp
  show ?thesis
  proof (cases "get_default_category_id db")
    case (Inl e)
    then show ?thesis using refl by (simp add: delete_category_def)
  next
    case (Inr d)
    show ?thesis
    proof (cases "cid = d")
      case True
      then show ?thesis using Inr refl by (simp add: delete_category_def)
    next
      case False
      show ?thesis
      proof (cases "update_stores_of_category d cid db")
        case (Inl e)
        then show ?thesis using Inr False refl by (simp add: delete_category_def)
      next
        case u: (Inr db1)
        note k1 = update_stores_of_category_keys [OF u]
        show ?thesis
        proof (cases "delete_category_row cid db1")
          case (Inl e)
          then show ?thesis using Inr False u k1 by (simp add: delete_category_def)
        next
          case r: (Inr db2)
          have "\<exists>e. store_keys db2 = store_keys db @ e"
            using k1 delete_category_row_keys [OF r] by (rule keys_trans)
          then show ?thesis using Inr False u r by (simp add: delete_category_def)
        qed
      qed
    qed
  qed
qed

lemma update_store_category_keys:
  "\<exists>e. store_keys (snd (update_store_category sid cid db)) = store_keys db @ e"
proof (cases "update_store_row cid sid db")
  case (Inl e)
  then show ?thesis by (simp add: update_store_category_def)
next
  case (Inr db1)
  then have "\<exists>e. store_keys db1 = store_keys db @ e"
    by (intro keys_map [where f = "\<lambda>s. if s_id s = sid then s\<lparr>s_category_id := Some cid\<rparr> else s"])
       (auto simp: update_store_row_def split: if_splits)
  then show ?thesis using Inr by (simp add: update_store_category_def)
qed

lemma add_statement_keys:
  "\<exists>e. store_keys (snd (add_statement mo yr cn l4 path db)) = store_keys db @ e"
  by (rule keys_same)
     (simp add: add_statement_def insert_statement_def Let_def split: sum.splits prod.splits)

lemma insert_transaction_keys:
  "insert_transaction sid d store_id amt inst db = Inr db1 \<Longrightarrow>
   \<exists>e. store_keys db1 = store_keys db @ e"
  by (rule keys_same) (auto simp: insert_transaction_def Let_def split: if_splits)

lemma add_transactions_keys:
  "\<exists>e. store_keys (snd (add_transactions sid txs db)) = store_keys db @ e"
proof (induction txs arbitrary: db)
  case Nil
  show ?case by simp
next
  case (Cons t txs)
  obtain r db1 where g: "get_store_id (store_name t) db = (r, db1)"
    by (cases "get_store_id (store_name t) db")
  have k1: "\<exists>e. store_keys db1 = store_keys db @ e"
    using get_store_id_keys [of "store_name t" db] g by simp
  show ?case
  proof (cases r)
    case (Inl e)
    then show ?thesis using g k1 by simp
  next
    case (Inr store_id)
    show ?thesis
    proof (cases "insert_transaction sid (date t) store_id (amount t) (installment_number t) db1")
      case (Inl e)
      then show ?thesis using g Inr k1 by simp
    next
      case i: (Inr db2)
      have "\<exists>e. store_keys db2 = store_keys db @ e"
        using k1 insert_transaction_keys [OF i] by (rule keys_trans)
      then have "\<exists>e. store_keys (snd (add_transactions sid txs db2)) = store_keys db @ e"
        using Cons.IH [of db2] by (rule keys_trans)
      then show ?thesis using g Inr i by simp
    qed
  qed
qed

lemma add_manual_transaction_keys:
  "\<exists>e. store_keys (snd (add_manual_transaction sid d name amt db)) = store_keys db @ e"
proof -
  obtain r db1 where g: "get_store_id name db = (r, db1)"
    by (cases "get_store_id name db")
  have k1: "\<exists>e. store_keys db1 = store_keys db @ e"
    using get_store_id_keys [of name db] g by simp
  show ?thesis
  proof (cases r)
    case (Inl e)
    then show ?thesis using g k1 by (simp add: add_manual_transaction_def)
  next
    case (Inr store_id)
    show ?thesis
    proof (cases "insert_transaction sid d store_id amt None db1")
      case (Inl e)
      then show ?thesis using g Inr k1 by (simp add: add_manual_transaction_def)
    next
      case i: (Inr db2)
      have "\<exists>e. store_keys db2 = store_keys db @ e"
        using k1 insert_transaction_keys [OF i] by (rule keys_trans)
      then show ?thesis using g Inr i by (simp add: add_manual_transaction_def)
    qed
  qed
qed

lemma apply_op_keys: "\<exists>e. store_keys (apply_op a db) = store_keys db @ e"
proof (cases a)
  case (Add_category x)
  then show ?thesis using add_category_keys by simp
next
  case (Delete_category x)
  then show ?thesis using delete_category_keys by simp
next
  case (Get_store_id x)
  then show ?thesis using get_store_id_keys by simp
next
  case (Update_store_category x y)
  then show ?thesis using update_store_category_keys by simp
next
  case (Add_statement x1 x2 x3 x4 x5)
  then show ?thesis using add_statement_keys by simp
next
  case (Add_transactions x y)
  then show ?thesis using add_transactions_keys by simp
next
  case (Add_manual_transaction x1 x2 x3 x4)
  then show ?thesis using add_manual_transaction_keys by simp
next
  case (Delete_transaction x)
  then show ?thesis by (simp add: delete_transaction_row_def store_keys_def)
next
  case (Delete_statement x)
  then show ?thesis by (simp add: delete_statement_row_def store_keys_def)
qed

lemma run_keys: "\<exists>e. store_keys (run ops db) = store_keys db @ e"
proof (induction ops arbitrary: db)
  case Nil
  show ?case by simp
next
  case (Cons a ops)
  have "\<exists>e. store_keys (run ops (apply_op a db)) = store_keys db @ e"
    using apply_op_keys [of a db] Cons [of "apply_op a db"] by (rule keys_trans)
  then show ?case by simp
qed

text \<open>
  C6. \<open>get_store_id\<close> looks the description up by equality of strings. A description
  that no merchant has creates exactly one merchant, with a fresh id and bound to the
  default category; a description that some merchant has returns that merchant and
  changes nothing; and once a description has resolved to an id, it resolves to the same
  id after any sequence of further operations on the store (imports into any statement,
  category edits, deletions), since no operation removes or renames a merchant.
\<close>

theorem C6_get_store_id_resolution:
  "(new_name \<notin> set (map s_name (stores db)) \<longrightarrow> get_default_category_id db = Inr d \<longrightarrow>
      (\<exists>i. i \<notin> set (map s_id (stores db)) \<and>
           get_store_id new_name db =
             (Inr i, db\<lparr>stores := stores db @ [\<lparr>s_id = i, s_name = new_name, s_category_id = Some d\<rparr>],
                        seq_stores := i\<rparr>))) \<and>
   (old_name \<in> set (map s_name (stores db)) \<longrightarrow>
      (\<exists>s \<in> set (stores db). s_name s = old_name \<and> get_store_id old_name db = (Inr (s_id s), db))) \<and>
   (get_store_id name db = (Inr j, db1) \<longrightarrow>
      get_store_id name (run ops db1) = (Inr j, run ops db1))"
proof (intro conjI impI)
  assume a: "new_name \<notin> set (map s_name (stores db))" and d: "get_default_category_id db = Inr d"
  show "\<exists>i. i \<notin> set (map s_id (stores db)) \<and>
           get_store_id new_name db =
             (Inr i, db\<lparr>stores := stores db @ [\<lparr>s_id = i, s_name = new_name, s_category_id = Some d\<rparr>],
                        seq_stores := i\<rparr>)"
    using get_store_id_miss [OF a d] next_id_fresh [of "seq_stores db" "map s_id (stores db)"]
    by blast
next
  assume "old_name \<in> set (map s_name (stores db))"
  then obtain s where "s \<in> set (stores db)" "s_name s = old_name"
    "find (\<lambda>s. s_name s = old_name) (stores db) = Some s"
    using name_in_find by blast
  then show "\<exists>s \<in> set (stores db). s_name s = old_name \<and> get_store_id old_name db = (Inr (s_id s), db)"
    using get_store_id_hit [of old_name db s] by blast
next
  assume g: "get_store_id name db = (Inr j, db1)"
  obtain e where e: "store_keys (run ops db1) = store_keys db1 @ e"
    using run_keys by blast
  show "get_store_id name (run ops db1) = (Inr j, run ops db1)"
    by (rule first_id_returns, rule first_id_extends [OF e], rule get_store_id_first [OF g])
qed

theorem C6_get_store_id_resolution_witness:
  "''NUEVO'' \<notin> set (map s_name (stores example_db)) \<and>
   get_default_category_id example_db = Inr 1 \<and>
   ''YPF'' \<in> set (map s_name (stores example_db)) \<and>
   get_store_id ''NUEVO'' example_db = (Inr 4, snd (get_store_id ''NUEVO'' example_db)) \<and>
   (\<exists>i. i \<notin> set (map s_id (stores example_db)) \<and>
        get_store_id ''NUEVO'' example_db =
          (Inr i, example_db\<lparr>stores := stores example_db @
                     [\<lparr>s_id = i, s_name = ''NUEVO'', s_category_id = Some 1\<rparr>],
                   seq_stores := i\<rparr>)) \<and>
   (\<exists>s \<in> set (stores example_db).
        s_name s = ''YPF'' \<and> get_store_id ''YPF'' example_db = (Inr (s_id s), example_db)) \<and>
   get_store_id ''NUEVO''
     (run [Delete_category 2, Get_store_id ''OTRO'', Update_store_category 4 3]
        (snd (get_store_id ''NUEVO'' example_db))) =
     (Inr 4, run [Delete_category 2, Get_store_id ''OTRO'', Update_store_category 4 3]
        (snd (get_store_id ''NUEVO'' example_db)))"
proof -
  have h1: "''NUEVO'' \<notin> set (map s_name (stores example_db))"
    by (simp add: example_db_def)
  have h2: "''YPF'' \<in> set (map s_name (stores example_db))"
    by (simp add: example_db_def)
  have h3: "get_store_id ''NUEVO'' example_db = (Inr 4, snd (get_store_id ''NUEVO'' example_db))"
    unfolding get_store_id_miss [OF h1 example_default]
    by (simp add: example_db_def next_id_def)
  show ?thesis
    using C6_get_store_id_resolution [of "''NUEVO''" example_db 1 "''YPF''" "''NUEVO''" 4
        "snd (get_store_id ''NUEVO'' example_db)"
        "[Delete_category 2, Get_store_id ''OTRO'', Update_store_category 4 3]"]
      h1 h2 h3 example_default
    by blast
qed

section \<open>Properties of the amount scan\<close>

lemma finditer_Nil [simp]: "finditer_amount pos [] = []"
  by (simp add: finditer_amount.simps)

lemma finditer_match:
  "s \<noteq> [] \<Longrightarrow> amount_match s = Some n \<Longrightarrow>
   finditer_amount pos s = (pos, take n s) # finditer_amount (pos + n) (drop n s)"
  by (subst finditer_amount.simps) simp

lemma finditer_skip:
  "s \<noteq> [] \<Longrightarrow> amount_match s = None \<Longrightarrow>
   finditer_amount pos s = finditer_amount (pos + 1) (tl s)"
  by (subst finditer_amount.simps) simp

lemma amount_match_Nil [simp]: "amount_match [] = None"
  by (simp add: amount_match_def)

lemma finditer_occurs:
  "(p, t) \<in> set (finditer_amount pos s) \<Longrightarrow>
   pos \<le> p \<and> p + length t \<le> pos + length s \<and> t = take (length t) (drop (p - pos) s) \<and>
   amount_match (drop (p - pos) s) = Some (length t)"
proof (induction pos s rule: finditer_amount.induct)
  case (1 pos s)
  show ?case
  proof (cases "s = []")
    case True
    with "1.prems" show ?thesis by simp
  next
    case ne: False
    show ?thesis
    proof (cases "amount_match s")
      case None
      with ne "1.prems" have m: "(p, t) \<in> set (finditer_amount (pos + 1) (tl s))"
        by (simp add: finditer_skip)
      note ih = "1.IH"(1) [OF ne None m]
      from ne obtain c r where s: "s = c # r" by (cases s) auto
      from ih have "pos + 1 \<le> p" by simp
      then have "p - pos = Suc (p - (pos + 1))" by simp
      then have d: "drop (p - pos) s = drop (p - (pos + 1)) (tl s)"
        using s by simp
      show ?thesis using ih s unfolding d by auto
    next
      case (Some n)
      note np = amount_match_pos [OF Some]
      from ne Some "1.prems" have
        m: "(p, t) = (pos, take n s) \<or> (p, t) \<in> set (finditer_amount (pos + n) (drop n s))"
        by (simp add: finditer_match)
      then show ?thesis
      proof
        assume "(p, t) = (pos, take n s)"
        then show ?thesis using np Some by (simp add: min_def)
      next
        assume m': "(p, t) \<in> set (finditer_amount (pos + n) (drop n s))"
        note ih = "1.IH"(2) [OF ne Some m']
        from ih have "pos + n \<le> p" by simp
        then have d: "drop (p - pos) s = drop (p - (pos + n)) (drop n s)"
          by simp
        show ?thesis using ih np unfolding d by auto
      qed
    qed
  qed
qed

lemma finditer_sorted:
  "sorted_wrt (\<lambda>a b. fst a + length (snd a) \<le> fst b) (finditer_amount pos s)"
proof (induction pos s rule: finditer_amount.induct)
  case (1 pos s)
  show ?case
  proof (cases "s = []")
    case True
    then show ?thesis by simp
  next
    case ne: False
    show ?thesis
    proof (cases "amount_match s")
      case None
      then show ?thesis using "1.IH"(1) [OF ne None] ne by (simp add: finditer_skip)
    next
      case (Some n)
      note np = amount_match_pos [OF Some]
      have "\<forall>b \<in> set (finditer_amount (pos + n) (drop n s)). pos + n \<le> fst b"
        using finditer_occurs [of _ _ "pos + n" "drop n s"] by auto
      then show ?thesis
        using "1.IH"(2) [OF ne Some] ne Some np by (simp add: finditer_match min_def)
    qed
  qed
qed

lemma finditer_empty_no_match:
  "finditer_amount pos s = [] \<Longrightarrow> amount_match (drop q s) = None"
proof (induction pos s arbitrary: q rule: finditer_amount.induct)
  case (1 pos s)
  show ?case
  proof (cases "s = []")
    case True
    then show ?thesis by simp
  next
    case ne: False
    show ?thesis
    proof (cases "amount_match s")
      case None
      with ne "1.prems" have e: "finditer_amount (pos + 1) (tl s) = []"
        by (simp add: finditer_skip)
      show ?thesis
      proof (cases q)
        case 0
        then show ?thesis using None by simp
      next
        case (Suc q')
        have "drop q s = drop q' (tl s)" using Suc ne by (cases s) auto
        then show ?thesis using "1.IH"(1) [OF ne None e, of q'] by simp
      qed
    next
      case (Some n)
      with ne "1.prems" show ?thesis by (simp add: finditer_match)
    qed
  qed
qed

lemma finditer_after_last:
  "finditer_amount pos s \<noteq> [] \<Longrightarrow> last (finditer_amount pos s) = (p, t) \<Longrightarrow>
   p + length t - pos \<le> q \<Longrightarrow> amount_match (drop q s) = None"
proof (induction pos s arbitrary: q rule: finditer_amount.induct)
  case (1 pos s)
  show ?case
  proof (cases "s = []")
    case True
    then show ?thesis by simp
  next
    case ne: False
    show ?thesis
    proof (cases "amount_match s")
      case None
      with ne "1.prems" have e: "finditer_amount (pos + 1) (tl s) \<noteq> []"
        and l: "last (finditer_amount (pos + 1) (tl s)) = (p, t)"
        by (simp_all add: finditer_skip)
      have "(p, t) \<in> set (finditer_amount (pos + 1) (tl s))"
        using e l last_in_set by metis
      then have "pos + 1 \<le> p" and "0 < length t"
        using finditer_occurs [of p t "pos + 1" "tl s"] amount_match_pos by auto
      then obtain q' where q: "q = Suc q'" and q': "p + length t - (pos + 1) \<le> q'"
        using "1.prems"(3) by (cases q) auto
      have "drop q s = drop q' (tl s)" using q ne by (cases s) auto
      then show ?thesis using "1.IH"(1) [OF ne None e l q'] by simp
    next
      case (Some n)
      note np = amount_match_pos [OF Some]
      have f: "finditer_amount pos s = (pos, take n s) # finditer_amount (pos + n) (drop n s)"
        using ne Some by (rule finditer_match)
      show ?thesis
      proof (cases "finditer_amount (pos + n) (drop n s) = []")
        case True
        with f "1.prems"(2) have "p = pos" "t = take n s" by simp_all
        moreover have "length (take n s) = n" using np by simp
        ultimately have "n \<le> q" using "1.prems"(3) by simp
        then have "drop q s = drop (q - n) (drop n s)" by simp
        then show ?thesis using finditer_empty_no_match [OF True, of "q - n"] by simp
      next
        case False
        with f "1.prems"(2) have l: "last (finditer_amount (pos + n) (drop n s)) = (p, t)"
          by simp
        have "(p, t) \<in> set (finditer_amount (pos + n) (drop n s))"
          using False l last_in_set by metis
        then have "pos + n \<le> p"
          using finditer_occurs [of p t "pos + n" "drop n s"] by auto
        with "1.prems"(3) have nq: "n \<le> q" and q': "p + length t - (pos + n) \<le> q - n"
          by auto
        have "drop q s = drop (q - n) (drop n s)" using nq by simp
        then show ?thesis using "1.IH"(2) [OF ne Some False l q'] by simp
      qed
    qed
  qed
qed

lemma foldl_keep_last: "foldl (\<lambda>amt_m am. Some am) a ms = (if ms = [] then a else Some (last ms))"
  by (induction ms arbitrary: a) auto

lemma last_amount_last:
  "last_amount rest = (if finditer_amount 0 rest = [] then None else Some (last (finditer_amount 0 rest)))"
  by (simp add: last_amount_def foldl_keep_last)


lemma parse_rest_amount:
  assumes "last_amount rest = Some (start, amt_str)" and "parse_rest dt rest orig = Inr (Some t)"
  shows "\<exists>v. py_float (amount_clean amt_str) = Some v \<and>
             amount t = (if amount_neg rest start amt_str then - v else v)"
  using assms unfolding parse_rest_def
  by (auto split: option.splits sum.splits prod.splits)

section \<open>Properties of the import of one line\<close>

lemma digit_not_sep:
  "is_digit c \<Longrightarrow> c \<noteq> CHR ''/'' \<and> c \<noteq> CHR ''-'' \<and> c \<noteq> CHR '','' \<and> c \<noteq> CHR ''.''"
  by (auto simp: is_digit_def)

lemma match_digits12_exact:
  assumes "list_all is_digit ds" "ds \<noteq> []" "length ds \<le> 2"
    and "length ds = 2 \<or> r = [] \<or> \<not> is_digit (hd r)"
  shows "match_digits12 (ds @ r) = length ds"
proof -
  from assms(2,3) consider a where "ds = [a]" | a b where "ds = [a, b]"
    by (cases ds; cases "tl ds"; cases "tl (tl ds)") auto
  then show ?thesis
  proof cases
    case 1
    then show ?thesis using assms(1,4) by (cases r) (auto simp: match_digits12_def)
  next
    case 2
    then show ?thesis using assms(1) by (auto simp: match_digits12_def)
  qed
qed

lemma date_pattern_shape:
  assumes "list_all is_digit dd" "dd \<noteq> []" "length dd \<le> 2"
    and "list_all is_digit mm" "mm \<noteq> []" "length mm \<le> 2"
    and "sep = CHR ''/'' \<or> sep = CHR ''-''"
    and "length mm = 2 \<or> tail = [] \<or> \<not> is_digit (hd tail)"
  shows "DATE_PATTERN (dd @ sep # mm @ tail) = Some (dd @ sep # mm, length dd + 1 + length mm)"
proof -
  have ns: "\<not> is_digit sep" using assms(7) digit_not_sep by blast
  have n1: "match_digits12 (dd @ sep # mm @ tail) = length dd"
    using assms(1-3) ns by (intro match_digits12_exact) auto
  have n2: "match_digits12 (mm @ tail) = length mm"
    using assms(4-6,8) by (intro match_digits12_exact) auto
  show ?thesis
    unfolding DATE_PATTERN_def Let_def n1 using assms(2,5,7) n2 by simp
qed

lemma py_split_no_sep: "sep \<notin> set s \<Longrightarrow> py_split sep s = [s]"
  by (induction s) auto

lemma py_split_one: "sep \<notin> set a \<Longrightarrow> sep \<notin> set b \<Longrightarrow> py_split sep (a @ sep # b) = [a, b]"
  by (induction a) (auto simp: py_split_no_sep)

lemma digits_no_char: "list_all is_digit ds \<Longrightarrow> \<not> is_digit c \<Longrightarrow> c \<notin> set ds"
  by (auto simp: list_all_iff)

lemma date_parts:
  assumes "list_all is_digit dd" "dd \<noteq> []" "list_all is_digit mm" "mm \<noteq> []"
    and "sep = CHR ''/'' \<or> sep = CHR ''-''"
  shows "map py_int (py_split (CHR ''/'') (py_replace (CHR ''-'') (CHR ''/'') (dd @ sep # mm))) =
         [Some (digits_val dd), Some (digits_val mm)]"
proof -
  have nd: "\<not> is_digit (CHR ''/'')" "\<not> is_digit (CHR ''-'')"
    by (simp_all add: is_digit_def)
  have keep: "py_replace (CHR ''-'') (CHR ''/'') ds = ds" if "list_all is_digit ds" for ds
    unfolding py_replace_def using digits_no_char [OF that nd(2)] by (intro map_idI) auto
  have r: "py_replace (CHR ''-'') (CHR ''/'') (dd @ sep # mm) = dd @ CHR ''/'' # mm"
    using keep [OF assms(1)] keep [OF assms(3)] assms(5) by (auto simp: py_replace_def)
  have "py_split (CHR ''/'') (dd @ CHR ''/'' # mm) = [dd, mm]"
    using assms(1,3) digits_no_char [OF _ nd(1)] by (intro py_split_one) auto
  then show ?thesis unfolding r using assms(1-4) by (simp add: py_int_def)
qed

lemma numeric_date_shape:
  assumes "list_all is_digit dd" "dd \<noteq> []" "length dd \<le> 2"
    and "list_all is_digit mm" "mm \<noteq> []" "length mm \<le> 2"
    and "sep = CHR ''/'' \<or> sep = CHR ''-''"
    and "length mm = 2 \<or> tail = [] \<or> \<not> is_digit (hd tail)"
  shows "numeric_date y (dd @ sep # mm @ tail) =
           map_option (\<lambda>dt. (dt, py_strip tail)) (py_date y (digits_val mm) (digits_val dd))"
  unfolding numeric_date_def date_pattern_shape [OF assms]
  using date_parts [OF assms(1,2,4,5,7)]
  by (simp split: option.splits)


lemma amount_run_append:
  assumes "\<forall>x \<in> set rn. is_digit x \<or> x = CHR ''.''"
  shows "amount_run (rn @ CHR '','' # w) = rn"
proof -
  have "\<not> (is_digit (CHR '','') \<or> CHR '','' = CHR ''.'')" by (simp add: is_digit_def)
  then show ?thesis unfolding amount_run_def using assms by (simp add: takeWhile_tail)
qed

lemma amount_shape_match:
  assumes "is_digit c" "\<forall>x \<in> set rn. is_digit x \<or> x = CHR ''.''" "is_digit a" "is_digit b"
  shows "amount_match (c # rn @ CHR '','' # a # b # w) =
           Some (length rn + 4 + (if w \<noteq> [] \<and> hd w = CHR ''-'' then 1 else 0))"
  unfolding amount_match_def Let_def using assms amount_run_append [OF assms(2)]
  by (cases w) (simp_all add: nth_Cons')

lemma amount_match_shape:
  assumes "amount_match u = Some n"
  shows "\<exists>c rn a b m. take n u = c # rn @ CHR '','' # a # b # m \<and> is_digit c \<and>
           (\<forall>x \<in> set rn. is_digit x \<or> x = CHR ''.'') \<and> is_digit a \<and> is_digit b \<and>
           (m = [] \<or> m = ''-'')"
proof -
  define rn where "rn = amount_run (tl u)"
  define t where "t = drop (length rn) (tl u)"
  from assms have ne: "u \<noteq> []" and c: "is_digit (hd u)" and t3: "3 \<le> length t"
    and k: "t ! 0 = CHR '',''" and a: "is_digit (t ! 1)" and b: "is_digit (t ! 2)"
    and n: "n = length rn + 4 + (if 3 < length t \<and> t ! 3 = CHR ''-'' then 1 else 0)"
    unfolding amount_match_unfold rn_def t_def by blast+
  have tl: "tl u = rn @ t"
    unfolding t_def rn_def amount_run_def by (simp add: dropWhile_eq_drop [symmetric])
  have runP: "\<forall>x \<in> set rn. is_digit x \<or> x = CHR ''.''"
    unfolding rn_def amount_run_def using set_takeWhileD by fastforce
  from t3 obtain t0 t1 t2 w where t: "t = t0 # t1 # t2 # w"
    by (cases t; cases "tl t"; cases "tl (tl t)") auto
  from ne tl have u: "u = hd u # rn @ t" by (cases u) auto
  define m where "m = (if w \<noteq> [] \<and> hd w = CHR ''-'' then ''-'' else [])"
  have "take n u = hd u # rn @ t0 # t1 # t2 # m"
  proof (cases "w \<noteq> [] \<and> hd w = CHR ''-''")
    case True
    then obtain w' where w: "w = CHR ''-'' # w'" by (cases w) auto
    have "n = length rn + 5" using n t w by simp
    then have "take n (hd u # rn @ t) = hd u # rn @ t0 # t1 # t2 # ''-''"
      using t w by (simp add: take_Cons')
    then show ?thesis using u True m_def by simp
  next
    case False
    then have "n = length rn + 4" using n t by (cases w) auto
    then have "take n (hd u # rn @ t) = hd u # rn @ [t0, t1, t2]"
      using t by (simp add: take_Cons')
    then show ?thesis using u False m_def by simp
  qed
  then show ?thesis
    using c runP k a b t m_def by (intro exI [of _ "hd u"] exI [of _ rn] exI [of _ t1] exI [of _ t2] exI [of _ m]) auto
qed

lemma filter_digits_dots:
  "\<forall>x \<in> set rn. is_digit x \<or> x = CHR ''.'' \<Longrightarrow>
   list_all is_digit (filter (\<lambda>c. c \<noteq> CHR ''.'') rn)"
  by (induction rn) auto

lemma replace_digits: "list_all is_digit ds \<Longrightarrow> py_replace (CHR '','') (CHR ''.'') ds = ds"
  unfolding py_replace_def using digit_not_sep by (intro map_idI) (auto simp: list_all_iff)

lemma amount_clean_shape:
  assumes "is_digit c" "\<forall>x \<in> set rn. is_digit x \<or> x = CHR ''.''" "is_digit a" "is_digit b"
    and "m = [] \<or> m = ''-''"
  shows "amount_clean (c # rn @ CHR '','' # a # b # m) =
           (c # filter (\<lambda>c. c \<noteq> CHR ''.'') rn) @ CHR ''.'' # a # b # m"
proof -
  have ds: "list_all is_digit (c # filter (\<lambda>c. c \<noteq> CHR ''.'') rn)"
    using assms(1) filter_digits_dots [OF assms(2)] by simp
  have "py_remove (CHR ''.'') (c # rn @ CHR '','' # a # b # m) =
          (c # filter (\<lambda>c. c \<noteq> CHR ''.'') rn) @ CHR '','' # a # b # m"
    using assms(1,3,4,5) digit_not_sep by (auto simp: py_remove_def)
  moreover have "py_replace (CHR '','') (CHR ''.'') (CHR '','' # a # b # m) = CHR ''.'' # a # b # m"
    using assms(3,4,5) digit_not_sep by (auto simp: py_replace_def)
  ultimately show ?thesis
    unfolding amount_clean_def using replace_digits [OF ds]
    by (simp add: py_replace_def)
qed

lemma py_float_shape:
  assumes "list_all is_digit ip" "ip \<noteq> []" "is_digit a" "is_digit b"
  shows "py_float (ip @ CHR ''.'' # [a, b]) =
           Some (real_of_int (digits_val ip) + real_of_int (digits_val [a, b]) / 100)"
    and "py_float (ip @ CHR ''.'' # a # b # ''-'') = None"
proof -
  have nd: "\<not> is_digit (CHR ''.'')" "\<not> is_digit (CHR ''-'')" by (simp_all add: is_digit_def)
  have tw: "takeWhile is_digit (ip @ CHR ''.'' # w) = ip" for w
    using assms(1) nd by (simp add: takeWhile_tail list_all_iff)
  show "py_float (ip @ CHR ''.'' # [a, b]) =
           Some (real_of_int (digits_val ip) + real_of_int (digits_val [a, b]) / 100)"
    unfolding py_float_def Let_def tw using assms by simp
  show "py_float (ip @ CHR ''.'' # a # b # ''-'') = None"
    unfolding py_float_def Let_def tw using assms nd by simp
qed

lemma match_float:
  assumes "amount_match u = Some n"
  shows "(CHR ''-'' \<in> set (take n u) \<longrightarrow> py_float (amount_clean (take n u)) = None \<and>
             last (take n u) = CHR ''-'') \<and>
         (CHR ''-'' \<notin> set (take n u) \<longrightarrow> (\<exists>v. py_float (amount_clean (take n u)) = Some v))"
proof -
  from amount_match_shape [OF assms] obtain c rn a b m
    where t: "take n u = c # rn @ CHR '','' # a # b # m" and c: "is_digit c"
      and r: "\<forall>x \<in> set rn. is_digit x \<or> x = CHR ''.''" and a: "is_digit a" and b: "is_digit b"
      and m: "m = [] \<or> m = ''-''"
    by (elim exE conjE) (rule that, assumption+)
  have ip: "list_all is_digit (c # filter (\<lambda>c. c \<noteq> CHR ''.'') rn)"
    using c filter_digits_dots [OF r] by simp
  have cl: "amount_clean (take n u) = (c # filter (\<lambda>c. c \<noteq> CHR ''.'') rn) @ CHR ''.'' # a # b # m"
    unfolding t by (rule amount_clean_shape [OF c r a b m])
  have "CHR ''-'' \<notin> set rn"
    using r digit_not_sep by fastforce
  then have nm: "CHR ''-'' \<notin> set (c # rn @ CHR '','' # [a, b])"
    using digit_not_sep [OF c] digit_not_sep [OF a] digit_not_sep [OF b] by auto
  from m show ?thesis
  proof
    assume e: "m = []"
    have "\<exists>v. py_float (amount_clean (take n u)) = Some v"
      unfolding cl e using py_float_shape(1) [OF ip _ a b] by simp
    moreover have "CHR ''-'' \<notin> set (take n u)"
      unfolding t e using nm by simp
    ultimately show ?thesis by simp
  next
    assume e: "m = ''-''"
    have "py_float (amount_clean (take n u)) = None"
      unfolding cl e using py_float_shape(2) [OF ip _ a b] by simp
    moreover have "last (take n u) = CHR ''-''"
      unfolding t e by simp
    moreover have "CHR ''-'' \<in> set (take n u)"
      unfolding t e by simp
    ultimately show ?thesis by simp
  qed
qed


lemma take_match_digits: "take (match_digits12 r) r = takeWhile is_digit (take 2 r)"
proof -
  have "takeWhile is_digit (take 2 r) = take (match_digits12 r) (take 2 r)"
    unfolding match_digits12_def by (rule takeWhile_eq_take)
  moreover have "match_digits12 r \<le> 2"
    unfolding match_digits12_def using length_takeWhile_le [of is_digit "take 2 r"] by simp
  ultimately show ?thesis by (simp add: min_def)
qed

lemma install_match_int: "install_match s = Some g \<Longrightarrow> py_int g = Some (digits_val g)"
proof -
  assume a: "install_match s = Some g"
  then obtain r where g: "g = take (match_digits12 r) r" and n: "match_digits12 r \<noteq> 0"
    unfolding install_match_def Let_def by (auto split: if_splits)
  have "list_all is_digit g"
    unfolding g take_match_digits list_all_iff using set_takeWhileD by fastforce
  moreover have "g \<noteq> []"
    using n unfolding g take_match_digits match_digits12_def by auto
  ultimately show ?thesis by (simp add: py_int_def)
qed

lemma install_search_int:
  "install_search pos s = Some (i, g) \<Longrightarrow> py_int g = Some (digits_val g)"
  by (induction pos s rule: install_search.induct)
     (auto split: option.splits dest: install_match_int)

lemma parse_desc_returns: "\<exists>inst desc. parse_desc desc0 = Inr (inst, desc)"
proof (cases "install_search 0 desc0")
  case None
  then show ?thesis by (simp add: parse_desc_def)
next
  case (Some a)
  obtain i g where a: "a = (i, g)" by (cases a)
  show ?thesis
    using Some a install_search_int [of 0 desc0 i g] by (simp add: parse_desc_def)
qed

lemma trailing_amount_last:
  assumes "is_digit c" "\<forall>x \<in> set rn. is_digit x \<or> x = CHR ''.''" "is_digit a" "is_digit b"
  shows "\<exists>start amt_str. last_amount (pre @ c # rn @ CHR '','' # [a, b]) = Some (start, amt_str) \<and>
           (\<exists>v. py_float (amount_clean amt_str) = Some v)"
proof -
  define amt where "amt = c # rn @ CHR '','' # [a, b]"
  define s where "s = pre @ amt"
  have ma: "amount_match amt = Some (length rn + 4)"
    unfolding amt_def using amount_shape_match [OF assms, of "[]"] by simp
  have nm: "CHR ''-'' \<notin> set amt"
  proof -
    have "CHR ''-'' \<notin> set rn" using assms(2) digit_not_sep by fastforce
    then show ?thesis
      unfolding amt_def
      using digit_not_sep [OF assms(1)] digit_not_sep [OF assms(3)] digit_not_sep [OF assms(4)]
      by auto
  qed
  have at_pre: "amount_match (drop (length pre) s) \<noteq> None"
    unfolding s_def using ma by simp
  have ne: "finditer_amount 0 s \<noteq> []"
    using finditer_empty_no_match [of 0 s "length pre"] at_pre by blast
  obtain start t where l: "last (finditer_amount 0 s) = (start, t)"
    by (cases "last (finditer_amount 0 s)")
  have la: "last_amount s = Some (start, t)"
    using ne l by (simp add: last_amount_last)
  have "(start, t) \<in> set (finditer_amount 0 s)"
    using ne l last_in_set by metis
  then have bound: "start + length t \<le> length s"
    and tt: "t = take (length t) (drop start s)"
    and mt: "amount_match (drop start s) = Some (length t)"
    using finditer_occurs [of start t 0 s] by simp_all
  have "CHR ''-'' \<notin> set t"
  proof
    assume m: "CHR ''-'' \<in> set t"
    have tpos: "0 < length t" using amount_match_pos [OF mt] by simp
    from m have "last (take (length t) (drop start s)) = CHR ''-''"
      using match_float [OF mt] tt by simp
    then have lt: "last t = CHR ''-''" using tt by simp
    have "last t = t ! (length t - 1)"
      using tpos by (simp add: last_conv_nth)
    also have "\<dots> = drop start s ! (length t - 1)"
      using tt tpos by (metis diff_less nth_take zero_less_one)
    also have "\<dots> = s ! (start + (length t - 1))"
      using bound by simp
    finally have at: "s ! (start + (length t - 1)) = CHR ''-''"
      using lt by simp
    have "start + length t \<le> length pre"
    proof (rule ccontr)
      assume "\<not> start + length t \<le> length pre"
      then have ge: "length pre \<le> start + (length t - 1)" using tpos by simp
      have "start + (length t - 1) < length s" using bound tpos by linarith
      then have "start + (length t - 1) - length pre < length amt"
        using ge unfolding s_def by simp
      then have "amt ! (start + (length t - 1) - length pre) \<in> set amt"
        by (rule nth_mem)
      moreover have "s ! (start + (length t - 1)) = amt ! (start + (length t - 1) - length pre)"
        unfolding s_def using ge by (simp add: nth_append)
      ultimately show False using at nm by simp
    qed
    then have "amount_match (drop (length pre) s) = None"
      using finditer_after_last [OF ne l, of "length pre"] by simp
    with at_pre show False by simp
  qed
  then have "\<exists>v. py_float (amount_clean t) = Some v"
    using match_float [OF mt] tt by simp
  then show ?thesis using la unfolding s_def amt_def by blast
qed

lemma parse_rest_returns:
  assumes "last_amount rest = Some (start, amt_str)" "py_float (amount_clean amt_str) = Some v"
  shows "\<exists>t. parse_rest dt rest orig = Inr (Some t) \<and> date t = dt"
proof -
  obtain inst desc where "parse_desc (py_strip (take start rest)) = Inr (inst, desc)"
    using parse_desc_returns by blast
  then show ?thesis using assms by (simp add: parse_rest_def)
qed


subsection \<open>The amount of the transaction\<close>

text \<open>
  C3. When the remainder holds amount matches (two or more, or just one), the match kept
  by the loop is the last one that \<open>finditer\<close> yields: it is an occurrence of the pattern
  in the remainder, every other match ends at or before its start, and no occurrence of
  the pattern starts at or after its end. The amount of any transaction built from the
  remainder is the value of that match, so an earlier match is never used; and when that
  match has no minus sign in it, a transaction is built, whatever the date and the
  original line, and its amount is the value of that match, negated when the sign flag
  is set.
\<close>

theorem C3_last_amount_wins:
  assumes "finditer_amount 0 rest \<noteq> []"
  shows "\<exists>start amt_str.
           last_amount rest = Some (start, amt_str) \<and>
           (start, amt_str) = last (finditer_amount 0 rest) \<and>
           amount_match (drop start rest) = Some (length amt_str) \<and>
           amt_str = take (length amt_str) (drop start rest) \<and>
           (\<forall>m \<in> set (butlast (finditer_amount 0 rest)). fst m + length (snd m) \<le> start) \<and>
           (\<forall>q. start + length amt_str \<le> q \<longrightarrow> amount_match (drop q rest) = None) \<and>
           (\<forall>dt orig t. parse_rest dt rest orig = Inr (Some t) \<longrightarrow>
              (\<exists>v. py_float (amount_clean amt_str) = Some v \<and>
                   amount t = (if amount_neg rest start amt_str then - v else v))) \<and>
           (CHR ''-'' \<notin> set amt_str \<longrightarrow>
              (\<forall>dt orig. \<exists>t v. parse_rest dt rest orig = Inr (Some t) \<and>
                 py_float (amount_clean amt_str) = Some v \<and>
                 amount t = (if amount_neg rest start amt_str then - v else v)))"
proof -
  define ms where "ms = finditer_amount 0 rest"
  obtain start amt_str where l: "last ms = (start, amt_str)"
    by (cases "last ms")
  have ne: "ms \<noteq> []" using assms by (simp add: ms_def)
  have la: "last_amount rest = Some (start, amt_str)"
    using ne l by (simp add: last_amount_last ms_def [symmetric])
  have "(start, amt_str) \<in> set ms"
    using ne l last_in_set by metis
  then have occ: "amount_match (drop start rest) = Some (length amt_str)"
    "amt_str = take (length amt_str) (drop start rest)"
    using finditer_occurs [of start amt_str 0 rest] by (simp_all add: ms_def)
  have "sorted_wrt (\<lambda>a b. fst a + length (snd a) \<le> fst b) (butlast ms @ [last ms])"
    using finditer_sorted [of 0 rest] ne by (simp add: ms_def)
  then have before: "\<forall>m \<in> set (butlast ms). fst m + length (snd m) \<le> start"
    unfolding sorted_wrt_append using l by simp
  have after: "\<forall>q. start + length amt_str \<le> q \<longrightarrow> amount_match (drop q rest) = None"
    using finditer_after_last [of 0 rest start amt_str] ne l by (simp add: ms_def)
  have built: "\<exists>t v. parse_rest dt rest orig = Inr (Some t) \<and>
                 py_float (amount_clean amt_str) = Some v \<and>
                 amount t = (if amount_neg rest start amt_str then - v else v)"
    if nm: "CHR ''-'' \<notin> set amt_str" for dt orig
  proof -
    have "\<exists>v. py_float (amount_clean (take (length amt_str) (drop start rest))) = Some v"
      using match_float [OF occ(1)] nm occ(2) by simp
    then obtain v where v: "py_float (amount_clean amt_str) = Some v"
      using occ(2) by auto
    from parse_rest_returns [OF la v, of dt orig] obtain t
      where t: "parse_rest dt rest orig = Inr (Some t)" by blast
    from parse_rest_amount [OF la t] v
    have "amount t = (if amount_neg rest start amt_str then - v else v)" by simp
    with t v show ?thesis by blast
  qed
  show ?thesis
    using la l occ before after parse_rest_amount [OF la] built
    unfolding ms_def by (intro exI [of _ start] exI [of _ amt_str]) simp
qed

lemma example_matches:
  "finditer_amount 0 ''CUOTA 1,23 TOTAL 9.583,29'' = [(6, ''1,23''), (17, ''9.583,29'')]"
  by code_simp

lemma example_amount_value: "py_float (amount_clean ''9.583,29'') = Some (958329 / 100)"
  by code_simp

lemma example_amount_sign: "\<not> amount_neg ''CUOTA 1,23 TOTAL 9.583,29'' 17 ''9.583,29''"
  by code_simp

theorem C3_last_amount_wins_witness:
  "finditer_amount 0 ''CUOTA 1,23 TOTAL 9.583,29'' = [(6, ''1,23''), (17, ''9.583,29'')] \<and>
   last_amount ''CUOTA 1,23 TOTAL 9.583,29'' = Some (17, ''9.583,29'') \<and>
   (\<exists>t. parse_rest \<lparr>year = 2024, month = 3, day = 5\<rparr> ''CUOTA 1,23 TOTAL 9.583,29''
            ''05/03 CUOTA 1,23 TOTAL 9.583,29'' = Inr (Some t) \<and>
        amount t = 958329 / 100)"
proof -
  have "finditer_amount 0 ''CUOTA 1,23 TOTAL 9.583,29'' \<noteq> []"
    unfolding example_matches by simp
  from C3_last_amount_wins [OF this]
  obtain start amt_str where la: "last_amount ''CUOTA 1,23 TOTAL 9.583,29'' = Some (start, amt_str)"
    and l: "(start, amt_str) = last (finditer_amount 0 ''CUOTA 1,23 TOTAL 9.583,29'')"
    and b: "CHR ''-'' \<notin> set amt_str \<longrightarrow>
              (\<forall>dt orig. \<exists>t v. parse_rest dt ''CUOTA 1,23 TOTAL 9.583,29'' orig = Inr (Some t) \<and>
                 py_float (amount_clean amt_str) = Some v \<and>
                 amount t = (if amount_neg ''CUOTA 1,23 TOTAL 9.583,29'' start amt_str then - v else v))"
    by (elim exE conjE) (rule that, assumption+)
  have e: "start = 17" "amt_str = ''9.583,29''"
    using l unfolding example_matches by simp_all
  have "CHR ''-'' \<notin> set ''9.583,29''" by simp
  with b obtain t v where
    t: "parse_rest \<lparr>year = 2024, month = 3, day = 5\<rparr> ''CUOTA 1,23 TOTAL 9.583,29''
            ''05/03 CUOTA 1,23 TOTAL 9.583,29'' = Inr (Some t)"
    and v: "py_float (amount_clean ''9.583,29'') = Some v"
    and a: "amount t = (if amount_neg ''CUOTA 1,23 TOTAL 9.583,29'' 17 ''9.583,29'' then - v else v)"
    unfolding e by blast
  have "amount t = 958329 / 100"
    using a v unfolding example_amount_value using example_amount_sign by simp
  with t have "\<exists>t. parse_rest \<lparr>year = 2024, month = 3, day = 5\<rparr> ''CUOTA 1,23 TOTAL 9.583,29''
            ''05/03 CUOTA 1,23 TOTAL 9.583,29'' = Inr (Some t) \<and> amount t = 958329 / 100"
    by blast
  then show ?thesis using la example_matches unfolding e by simp
qed

text \<open>
  C2, as the code has it. Take a line that, stripped, begins with a numeric short date
  (one or two digits, \<open>/\<close> or \<open>-\<close>, one or two digits) naming a day that every year has,
  which is any valid day and month but 29/02, and whose remainder ends with an amount (a
  digit, digits and dots, a comma, two digits) with no minus sign after it. In whatever
  year the import runs (\<open>date.today().year\<close> lies between 1 and 9999), parsing yields
  exactly one transaction, with the day of the line. The import keeps it, with the
  caller's month and year and the day of the line, when that day exists in the caller's
  month, whatever month the line printed; when the day does not exist there, the import
  yields no transaction. Nothing is said of 29/02 and of an amount with a trailing minus.
\<close>

theorem C2_short_date_import:
  assumes line: "py_strip orig = dd @ sep # mm @ tail"
    and dd: "list_all is_digit dd" "dd \<noteq> []" "length dd \<le> 2"
    and mm: "list_all is_digit mm" "mm \<noteq> []" "length mm \<le> 2"
    and sep: "sep = CHR ''/'' \<or> sep = CHR ''-''"
    and greedy: "length mm = 2 \<or> \<not> is_digit (hd tail)"
    and amt: "py_strip tail = pre @ c # rn @ CHR '','' # [a, b]" "is_digit c"
      "\<forall>x \<in> set rn. is_digit x \<or> x = CHR ''.''" "is_digit a" "is_digit b"
    and every_year: "\<forall>y. 1 \<le> y \<and> y \<le> 9999 \<longrightarrow> py_date y (digits_val mm) (digits_val dd) \<noteq> None"
    and today: "1 \<le> today_year" "today_year \<le> 9999"
  shows "\<exists>t. parse_pdf today_year [orig] = Inr [t] \<and> day (date t) = digits_val dd \<and>
           import_lines today_year yr mo [orig] =
             Inr (if py_date yr mo (digits_val dd) = None then []
                  else [t\<lparr>date := \<lparr>year = yr, month = mo, day = digits_val dd\<rparr>\<rparr>])"
proof -
  define d0 where "d0 = \<lparr>year = today_year, month = digits_val mm, day = digits_val dd\<rparr>"
  define rest where "rest = py_strip tail"
  have "py_date today_year (digits_val mm) (digits_val dd) \<noteq> None"
    using every_year today by blast
  then have pd: "py_date today_year (digits_val mm) (digits_val dd) = Some d0"
    unfolding py_date_def d0_def by (simp split: if_splits)
  have g: "length mm = 2 \<or> tail = [] \<or> \<not> is_digit (hd tail)"
    using greedy by blast
  have nd: "numeric_date today_year (py_strip orig) = Some (d0, rest)"
    unfolding line numeric_date_shape [OF dd mm sep g] pd rest_def by simp
  have ne: "py_strip orig \<noteq> []" unfolding line by simp
  have rne: "rest \<noteq> []" unfolding rest_def amt(1) by simp
  obtain start amt_str v where la: "last_amount rest = Some (start, amt_str)"
    and fl: "py_float (amount_clean amt_str) = Some v"
    using trailing_amount_last [OF amt(2-5), of pre] unfolding rest_def amt(1) by blast
  obtain t where t: "parse_rest d0 rest orig = Inr (Some t)" and dt: "date t = d0"
    using parse_rest_returns [OF la fl] by blast
  have pl: "parse_line today_year orig = Inr (Some t)"
    unfolding parse_line_def Let_def using ne nd rne t by simp
  have pp: "parse_pdf today_year [orig] = Inr [t]"
    unfolding parse_pdf_def using pl by simp
  have dy: "day (date t) = digits_val dd"
    unfolding dt d0_def by simp
  have "adjusted yr mo [t] =
          (if py_date yr mo (digits_val dd) = None then []
           else [t\<lparr>date := \<lparr>year = yr, month = mo, day = digits_val dd\<rparr>\<rparr>])"
    using dy by (auto simp: py_date_def split: option.splits if_splits)
  then have "import_lines today_year yr mo [orig] =
             Inr (if py_date yr mo (digits_val dd) = None then []
                  else [t\<lparr>date := \<lparr>year = yr, month = mo, day = digits_val dd\<rparr>\<rparr>])"
    unfolding import_lines_def pp by simp
  with pp dy show ?thesis by blast
qed

lemma example_line_strip:
  "py_strip ''05/03 SUPERMERCADO * LA FLOR C.03/06 9.583,29'' =
     ''05'' @ CHR ''/'' # ''03'' @ '' SUPERMERCADO * LA FLOR C.03/06 9.583,29''"
  by code_simp

lemma example_line_tail:
  "py_strip '' SUPERMERCADO * LA FLOR C.03/06 9.583,29'' =
     ''SUPERMERCADO * LA FLOR C.03/06 '' @ CHR ''9'' # ''.583'' @ CHR '','' # [CHR ''2'', CHR ''9'']"
  by code_simp

theorem C2_short_date_import_witness:
  "\<exists>t. parse_pdf 2026 [''05/03 SUPERMERCADO * LA FLOR C.03/06 9.583,29''] = Inr [t] \<and>
       day (date t) = digits_val ''05'' \<and>
       import_lines 2026 2024 3 [''05/03 SUPERMERCADO * LA FLOR C.03/06 9.583,29''] =
         Inr (if py_date 2024 3 (digits_val ''05'') = None then []
              else [t\<lparr>date := \<lparr>year = 2024, month = 3, day = digits_val ''05''\<rparr>\<rparr>])"
proof (rule C2_short_date_import [OF example_line_strip _ _ _ _ _ _ _ _ example_line_tail])
  have v: "digits_val ''03'' = 3" "digits_val ''05'' = 5" by code_simp+
  show "\<forall>y. 1 \<le> y \<and> y \<le> 9999 \<longrightarrow> py_date y (digits_val ''03'') (digits_val ''05'') \<noteq> None"
    unfolding v by (simp add: py_date_def days_in_month_def)
  show "(1::int) \<le> 2026" by simp
  show "(2026::int) \<le> 9999" by simp
  show "list_all is_digit ''05''" by code_simp
  show "''05'' \<noteq> []" by simp
  show "length ''05'' \<le> 2" by simp
  show "list_all is_digit ''03''" by code_simp
  show "''03'' \<noteq> []" by simp
  show "length ''03'' \<le> 2" by simp
  show "CHR ''/'' = CHR ''/'' \<or> CHR ''/'' = CHR ''-''" by simp
  show "length ''03'' = 2 \<or> \<not> is_digit (hd '' SUPERMERCADO * LA FLOR C.03/06 9.583,29'')" by simp
  show "is_digit CHR ''9''" by code_simp
  show "\<forall>x \<in> set ''.583''. is_digit x \<or> x = CHR ''.''" by code_simp
  show "is_digit CHR ''2''" by code_simp
  show "is_digit CHR ''9''" by code_simp
qed

lemma example_line_import:
  "import_lines 2026 2024 3 [''05/03 SUPERMERCADO * LA FLOR C.03/06 9.583,29''] =
     Inr [\<lparr>date = \<lparr>year = 2024, month = 3, day = 5\<rparr>, store_name = ''LA FLOR'',
           amount = 958329 / 100, installment_number = Some 3\<rparr>]"
  by code_simp

text \<open>
  C2, as the claim states it, fails: 31/01 is a valid short date in every year and the
  amount is well formed, yet with the target period February 2025 the import yields
  nothing.
\<close>

theorem C2_day_missing_in_target_month:
  "parse_pdf 2025 [''31/01 market 10,00''] =
     Inr [\<lparr>date = \<lparr>year = 2025, month = 1, day = 31\<rparr>, store_name = ''market'',
           amount = 10, installment_number = None\<rparr>] \<and>
   import_lines 2025 2025 2 [''31/01 market 10,00''] = Inr []"
  by code_simp

text \<open>
  C9. An amount match with a trailing minus is to give the negated value. The code does
  set the sign flag for it, but passes the cleaned string with its minus to \<open>float\<close>,
  which raises, and the line is skipped: no transaction, hence no amount.
\<close>

theorem C9_trailing_minus_line_dropped:
  "last_amount ''market 1.000,00-'' = Some (7, ''1.000,00-'') \<and>
   amount_neg ''market 1.000,00-'' 7 ''1.000,00-'' \<and>
   amount_clean ''1.000,00-'' = ''1000.00-'' \<and>
   py_float ''1000.00-'' = None \<and>
   parse_pdf 2024 [''05/03 market 1.000,00-''] = Inr []"
  by code_simp

section \<open>Properties of the sums by category\<close>

lemma concat_key_none:
  "k \<notin> key ` set xs \<Longrightarrow> concat (map (\<lambda>x. if k = key x then f x else []) xs) = []"
  by (induction xs) auto

lemma concat_key_find:
  "distinct (map key xs) \<Longrightarrow>
   concat (map (\<lambda>x. if k = key x then f x else []) xs) =
     (case find (\<lambda>x. key x = k) xs of None \<Rightarrow> [] | Some x \<Rightarrow> f x)"
proof (induction xs)
  case Nil
  show ?case by simp
next
  case (Cons x xs)
  show ?case
  proof (cases "key x = k")
    case True
    then have "k \<notin> key ` set xs" using Cons.prems by auto
    then show ?thesis using True concat_key_none [of k key xs f] by simp
  next
    case False
    then show ?thesis using Cons by auto
  qed
qed

lemma joined_by_key:
  assumes "db_ok db"
  shows "joined db = concat (map (\<lambda>t. case joined_row db t of None \<Rightarrow> [] | Some r \<Rightarrow> [r]) (transactions db))"
proof -
  have ds: "distinct (map s_id (stores db))" and dc: "distinct (map c_id (categories db))"
    using assms by (simp_all add: db_ok_def)
  have inner: "concat (map (\<lambda>c. if s_category_id s = Some (c_id c) then [(t, s, c)] else []) (categories db)) =
      (case s_category_id s of None \<Rightarrow> [] | Some k \<Rightarrow>
         (case find (\<lambda>c. c_id c = k) (categories db) of None \<Rightarrow> [] | Some c \<Rightarrow> [(t, s, c)]))" for s t
  proof (cases "s_category_id s")
    case None
    then show ?thesis by (induction "categories db") auto
  next
    case (Some k)
    show ?thesis
      using concat_key_find [OF dc, of k "\<lambda>c. [(t, s, c)]"] Some by simp
  qed
  have row: "concat (map (\<lambda>s. if t_store_id t = s_id s
                 then concat (map (\<lambda>c. if s_category_id s = Some (c_id c) then [(t, s, c)] else [])
                                  (categories db))
                 else []) (stores db)) =
      (case joined_row db t of None \<Rightarrow> [] | Some r \<Rightarrow> [r])" for t
  proof -
    define F where "F = (\<lambda>s :: store_row. case s_category_id s of None \<Rightarrow> [] | Some k \<Rightarrow>
         (case find (\<lambda>c. c_id c = k) (categories db) of None \<Rightarrow> [] | Some c \<Rightarrow> [(t, s, c)]))"
    have "concat (map (\<lambda>s. if t_store_id t = s_id s then F s else []) (stores db)) =
        (case find (\<lambda>s. s_id s = t_store_id t) (stores db) of None \<Rightarrow> [] | Some s \<Rightarrow> F s)"
      by (rule concat_key_find [OF ds])
    also have "\<dots> = (case joined_row db t of None \<Rightarrow> [] | Some r \<Rightarrow> [r])"
      unfolding joined_row_def F_def by (simp split: option.splits)
    finally show ?thesis unfolding inner F_def .
  qed
  show ?thesis unfolding joined_def row ..
qed


lemma find_key_mem:
  "find (\<lambda>x. key x = k) xs = Some x \<Longrightarrow> x \<in> set xs \<and> key x = k"
  by (induction xs) (auto split: if_splits)

lemma find_key_distinct:
  "distinct (map key xs) \<Longrightarrow> x \<in> set xs \<Longrightarrow> find (\<lambda>y. key y = key x) xs = Some x"
  by (induction xs) (auto simp: rev_image_eqI)

lemma find_key_None: "find (\<lambda>x. key x = k) xs = None \<longleftrightarrow> k \<notin> key ` set xs"
  by (induction xs) auto

lemma joined_row_Some:
  "joined_row db t = Some r \<Longrightarrow>
   fst r = t \<and> snd (snd r) \<in> set (categories db) \<and>
   spec_store_category db (t_store_id t) = Some (c_id (snd (snd r)))"
  unfolding joined_row_def spec_store_category_def
  by (auto split: option.splits dest: find_key_mem)

lemma joined_row_None:
  "joined_row db t = None \<Longrightarrow>
   spec_store_category db (t_store_id t) = Some i \<Longrightarrow> i \<notin> c_id ` set (categories db)"
  unfolding joined_row_def spec_store_category_def
  by (auto split: option.splits simp: find_key_None)

lemma joins_category_spec:
  assumes "i \<in> c_id ` set (categories db)"
  shows "joins_category db i t \<longleftrightarrow> spec_store_category db (t_store_id t) = Some i"
proof (cases "joined_row db t")
  case None
  then show ?thesis using joined_row_None [OF None, of i] assms by (auto simp: joins_category_def)
next
  case (Some r)
  then show ?thesis using joined_row_Some [OF Some] by (auto simp: joins_category_def)
qed

lemma group_rows:
  "filter (\<lambda>(t, s, c). c_id c = i) (filter (\<lambda>(t, s, c). scope t)
      (concat (map (\<lambda>t. case joined_row db t of None \<Rightarrow> [] | Some r \<Rightarrow> [r]) xs))) =
   map (\<lambda>t. the (joined_row db t)) (filter (\<lambda>t. scope t \<and> joins_category db i t) xs)"
proof (induction xs)
  case Nil
  show ?case by simp
next
  case (Cons x xs)
  show ?case
  proof (cases "joined_row db x")
    case None
    then show ?thesis using Cons by (simp add: joins_category_def)
  next
    case (Some r)
    obtain t s c where r: "r = (t, s, c)" by (cases r)
    have "t = x" using joined_row_Some [OF Some] r by simp
    then show ?thesis using Cons Some r by (simp add: joins_category_def)
  qed
qed

lemma group_amounts:
  "map (\<lambda>(t, s, c). t_amount t) (map (\<lambda>t. the (joined_row db t)) (filter (\<lambda>t. scope t \<and> joins_category db i t) xs)) =
   map t_amount (filter (\<lambda>t. scope t \<and> joins_category db i t) xs)"
proof -
  have e: "(\<lambda>(t, s, c). t_amount t) = (\<lambda>r :: transaction_row \<times> store_row \<times> category_row. t_amount (fst r))"
    by (auto simp: fun_eq_iff)
  have "fst (the (joined_row db t)) = t" if "joins_category db i t" for t
  proof -
    from that obtain r where r: "joined_row db t = Some r" by (auto simp: joins_category_def split: option.splits)
    then show ?thesis using joined_row_Some [OF r] by simp
  qed
  then show ?thesis unfolding e by (simp add: comp_def)
qed

lemma scope_rows_ids:
  "set (map (\<lambda>(t, s, c). c_id c) (filter (\<lambda>(t, s, c). scope t)
      (concat (map (\<lambda>t. case joined_row db t of None \<Rightarrow> [] | Some r \<Rightarrow> [r]) xs)))) =
   {i. \<exists>t \<in> set xs. scope t \<and> joins_category db i t}"
proof (induction xs)
  case Nil
  show ?case by simp
next
  case (Cons x xs)
  show ?case
  proof (cases "joined_row db x")
    case None
    then show ?thesis using Cons by (auto simp: joins_category_def)
  next
    case (Some r)
    obtain t s c where r: "r = (t, s, c)" by (cases r)
    have "t = x" using joined_row_Some [OF Some] r by simp
    then show ?thesis using Cons Some r by (auto simp: joins_category_def)
  qed
qed


lemma joins_category_exists: "joins_category db i t \<Longrightarrow> i \<in> c_id ` set (categories db)"
proof -
  assume "joins_category db i t"
  then obtain r where r: "joined_row db t = Some r" and i: "c_id (snd (snd r)) = i"
    by (auto simp: joins_category_def split: option.splits)
  show ?thesis using joined_row_Some [OF r] i by auto
qed

lemma spec_transactions_joins:
  assumes "i \<in> c_id ` set (categories db)"
  shows "spec_category_transactions scope db i = filter (\<lambda>t. scope t \<and> joins_category db i t) (transactions db)"
  unfolding spec_category_transactions_def using joins_category_spec [OF assms] by simp

lemma group_by_category_rows:
  assumes ok: "db_ok db"
  shows "\<exists>cs. group_by_category (filter (\<lambda>(t, s, c). scope t) (joined db)) =
                 map (\<lambda>c. (c_name c, spec_category_total scope db (c_id c))) cs \<and>
              sorted_wrt (\<lambda>a b. c_id a < c_id b) cs \<and>
              set cs = set (filter (\<lambda>c. spec_category_transactions scope db (c_id c) \<noteq> [])
                              (categories db))"
proof -
  define rows where "rows = filter (\<lambda>(t, s, c). scope t) (joined db)"
  define ids where "ids = map (\<lambda>(t, s, c). c_id c) rows"
  define has where "has = (\<lambda>c :: category_row. spec_category_transactions scope db (c_id c) \<noteq> [])"
  define G where "G = (\<lambda>i. let g = filter (\<lambda>(t, s, c). c_id c = i) rows in
               (c_name (snd (snd (hd g))), sum_list (map (\<lambda>(t, s, c). t_amount t) g)))"
  define cat where "cat = (\<lambda>i. the (find (\<lambda>c. c_id c = i) (categories db)))"
  define cs where "cs = map cat (sort (remdups ids))"
  have dc: "distinct (map c_id (categories db))" using ok by (simp add: db_ok_def)
  have rows: "rows = filter (\<lambda>(t, s, c). scope t)
      (concat (map (\<lambda>t. case joined_row db t of None \<Rightarrow> [] | Some r \<Rightarrow> [r]) (transactions db)))"
    unfolding rows_def joined_by_key [OF ok] ..
  have grp: "filter (\<lambda>(t, s, c). c_id c = i) rows =
      map (\<lambda>t. the (joined_row db t)) (filter (\<lambda>t. scope t \<and> joins_category db i t) (transactions db))" for i
    unfolding rows by (rule group_rows)
  have set_ids: "set ids = {i. \<exists>t \<in> set (transactions db). scope t \<and> joins_category db i t}"
    unfolding ids_def rows by (rule scope_rows_ids)
  have ids_has: "set ids = c_id ` set (filter has (categories db))"
  proof (rule set_eqI)
    fix i
    show "i \<in> set ids \<longleftrightarrow> i \<in> c_id ` set (filter has (categories db))"
    proof
      assume "i \<in> set ids"
      then obtain t where t: "t \<in> set (transactions db)" "scope t" "joins_category db i t"
        unfolding set_ids by blast
      have ic: "i \<in> c_id ` set (categories db)" using t(3) by (rule joins_category_exists)
      then obtain c where c: "c \<in> set (categories db)" "c_id c = i" by auto
      have "t \<in> set (spec_category_transactions scope db i)"
        unfolding spec_transactions_joins [OF ic] using t by simp
      then have "has c" unfolding has_def using c(2) by auto
      then show "i \<in> c_id ` set (filter has (categories db))" using c by auto
    next
      assume "i \<in> c_id ` set (filter has (categories db))"
      then obtain c where c: "c \<in> set (categories db)" "c_id c = i" "has c" by auto
      have ic: "i \<in> c_id ` set (categories db)" using c by auto
      from c(3) obtain t where "t \<in> set (spec_category_transactions scope db i)"
        unfolding has_def c(2) by (cases "spec_category_transactions scope db i") auto
      then have "t \<in> set (transactions db) \<and> scope t \<and> joins_category db i t"
        unfolding spec_transactions_joins [OF ic] by simp
      then show "i \<in> set ids" unfolding set_ids by blast
    qed
  qed
  have cat: "cat (c_id c) = c" if "c \<in> set (categories db)" for c
    unfolding cat_def using find_key_distinct [OF dc that] by simp
  have Gc: "G (c_id c) = (c_name c, spec_category_total scope db (c_id c))"
    if c: "c \<in> set (categories db)" and h: "has c" for c
  proof -
    have ic: "c_id c \<in> c_id ` set (categories db)" using c by simp
    define T where "T = spec_category_transactions scope db (c_id c)"
    have T: "T = filter (\<lambda>t. scope t \<and> joins_category db (c_id c) t) (transactions db)"
      unfolding T_def by (rule spec_transactions_joins [OF ic])
    have g: "filter (\<lambda>(t, s, c'). c_id c' = c_id c) rows = map (\<lambda>t. the (joined_row db t)) T"
      unfolding grp T ..
    from h obtain t0 ts where Tc: "T = t0 # ts"
      unfolding has_def T_def [symmetric] by (cases T) auto
    have "t0 \<in> set T" unfolding Tc by simp
    then have "joins_category db (c_id c) t0" unfolding T by simp
    then obtain r where r: "joined_row db t0 = Some r" and ri: "c_id (snd (snd r)) = c_id c"
      by (auto simp: joins_category_def split: option.splits)
    have "snd (snd r) \<in> set (categories db)" using joined_row_Some [OF r] by simp
    then have "snd (snd r) = c"
      using ri c dc by (meson distinct_map inj_onD)
    then have name: "c_name (snd (snd (hd (map (\<lambda>t. the (joined_row db t)) T)))) = c_name c"
      unfolding Tc using r by simp
    have "sum_list (map (\<lambda>(t, s, c). t_amount t) (map (\<lambda>t. the (joined_row db t)) T)) =
          sum_list (map t_amount T)"
      unfolding T group_amounts ..
    then show ?thesis
      unfolding G_def Let_def g name spec_category_total_def T_def [symmetric] by simp
  qed
  have in_ids: "\<exists>c. c \<in> set (categories db) \<and> has c \<and> c_id c = i \<and> cat i = c"
    if "i \<in> set ids" for i
  proof -
    from that obtain c where c: "c \<in> set (categories db)" "has c" "c_id c = i"
      unfolding ids_has by auto
    then show ?thesis using cat [OF c(1)] by auto
  qed
  have "group_by_category rows = map G (sort (remdups ids))"
    unfolding group_by_category_def G_def ids_def ..
  also have "\<dots> = map (\<lambda>i. (c_name (cat i), spec_category_total scope db (c_id (cat i))))
                     (sort (remdups ids))"
  proof (rule map_cong [OF refl])
    fix i
    assume "i \<in> set (sort (remdups ids))"
    then have "i \<in> set ids" by simp
    from in_ids [OF this] obtain c where c: "c \<in> set (categories db)" "has c" "c_id c = i" "cat i = c"
      by blast
    show "G i = (c_name (cat i), spec_category_total scope db (c_id (cat i)))"
      using Gc [OF c(1,2)] c(3,4) by simp
  qed
  finally have one: "group_by_category rows =
      map (\<lambda>c. (c_name c, spec_category_total scope db (c_id c))) cs"
    unfolding cs_def by (simp add: comp_def)
  have "map c_id cs = map (\<lambda>i. i) (sort (remdups ids))"
    unfolding cs_def map_map comp_def
  proof (rule map_cong [OF refl])
    fix i
    assume "i \<in> set (sort (remdups ids))"
    then have "i \<in> set ids" by simp
    from in_ids [OF this] show "c_id (cat i) = i" by auto
  qed
  then have "map c_id cs = sort (remdups ids)" by simp
  moreover have "sorted_wrt (<) (sort (remdups ids))"
    by (simp add: strict_sorted_iff)
  ultimately have "sorted_wrt (<) (map c_id cs)" by simp
  then have two: "sorted_wrt (\<lambda>a b. c_id a < c_id b) cs"
    by (simp add: sorted_wrt_map)
  have three: "set cs = set (filter has (categories db))"
  proof (rule set_eqI)
    fix c
    show "c \<in> set cs \<longleftrightarrow> c \<in> set (filter has (categories db))"
    proof
      assume "c \<in> set cs"
      then obtain i where i: "i \<in> set ids" "c = cat i" unfolding cs_def by auto
      from in_ids [OF i(1)] show "c \<in> set (filter has (categories db))" using i(2) by auto
    next
      assume "c \<in> set (filter has (categories db))"
      then have c: "c \<in> set (categories db)" "has c" by auto
      then have "c_id c \<in> set ids" unfolding ids_has by auto
      then have "cat (c_id c) \<in> set cs" unfolding cs_def by simp
      then show "c \<in> set cs" using cat [OF c(1)] by simp
    qed
  qed
  show ?thesis
    using one two three unfolding rows_def has_def by blast
qed

lemma group_by_category_spec:
  assumes ok: "db_ok db"
  shows "mset (group_by_category (filter (\<lambda>(t, s, c). scope t) (joined db))) =
         image_mset (\<lambda>c. (c_name c, spec_category_total scope db (c_id c)))
           (filter_mset (\<lambda>c. spec_category_transactions scope db (c_id c) \<noteq> [])
              (mset (categories db)))"
proof -
  define has where "has = (\<lambda>c :: category_row. spec_category_transactions scope db (c_id c) \<noteq> [])"
  from group_by_category_rows [OF ok, of scope] obtain cs where
    g: "group_by_category (filter (\<lambda>(t, s, c). scope t) (joined db)) =
          map (\<lambda>c. (c_name c, spec_category_total scope db (c_id c))) cs"
    and s: "sorted_wrt (\<lambda>a b. c_id a < c_id b) cs"
    and m: "set cs = set (filter has (categories db))"
    unfolding has_def by blast
  have "sorted_wrt (<) (map c_id cs)" using s by (simp add: sorted_wrt_map)
  then have "distinct (map c_id cs)" by (simp add: strict_sorted_iff)
  then have d: "distinct cs" by (simp add: distinct_map)
  have "distinct (map c_id (categories db))" using ok by (simp add: db_ok_def)
  then have "distinct (categories db)" by (simp add: distinct_map)
  then have "distinct (filter has (categories db))" by simp
  then have "mset cs = mset (filter has (categories db))"
    using d m set_eq_iff_mset_eq_distinct by blast
  then have e: "mset cs = filter_mset has (mset (categories db))" by simp
  show ?thesis unfolding g mset_map e has_def ..
qed







lemma example_ok: "db_ok example_db"
  by (simp add: db_ok_def example_db_def)

lemma example_groups:
  "group_by_category (filter (\<lambda>(t, s, c). t_statement_id t = 2) (joined example_db)) =
     [(''Comida'', 30), (''Nafta'', 30)]"
  by code_simp


lemma get_category_sums_unique:
  "get_category_sums sid db out \<Longrightarrow> get_category_sums sid db out' \<Longrightarrow> out = out'"
  by (simp add: get_category_sums_def order_by_total_desc_def)

lemma example_tie_other_order:
  "\<not> get_category_sums 2 example_db [(''Comida'', 30), (''Nafta'', 30)]"
  unfolding get_category_sums_def example_groups order_by_total_desc_def by simp

subsection \<open>Reassigning a merchant\<close>

lemma update_store_category_effect:
  assumes "update_store_category m cid db = (Inr (), db')"
  shows "stores db' = map (\<lambda>s. if s_id s = m then s\<lparr>s_category_id := Some cid\<rparr> else s) (stores db)"
    and "categories db' = categories db" and "transactions db' = transactions db"
    and "m \<in> set (map s_id (stores db)) \<Longrightarrow> cid \<in> set (map c_id (categories db))"
  using assms unfolding update_store_category_def update_store_row_def
  by (auto split: if_splits sum.splits)

lemma find_after_update:
  "find (\<lambda>s. s_id s = k) (map (\<lambda>s. if s_id s = m then s\<lparr>s_category_id := Some cid\<rparr> else s) ss) =
   map_option (\<lambda>s. if s_id s = m then s\<lparr>s_category_id := Some cid\<rparr> else s) (find (\<lambda>s. s_id s = k) ss)"
  by (induction ss) auto

lemma spec_store_category_after:
  assumes "update_store_category m cid db = (Inr (), db')"
  shows "spec_store_category db' k =
           (if k = m \<and> m \<in> set (map s_id (stores db)) then Some cid else spec_store_category db k)"
proof -
  have "find (\<lambda>s. s_id s = k) (stores db) = None \<longleftrightarrow> k \<notin> set (map s_id (stores db))"
    using find_key_None [of s_id k "stores db"] by simp
  then show ?thesis
    unfolding spec_store_category_def update_store_category_effect(1) [OF assms] find_after_update
    by (auto split: option.splits dest: find_key_mem)
qed

lemma db_ok_after_update:
  assumes "update_store_category m cid db = (Inr (), db')" and "db_ok db"
  shows "db_ok db'"
proof -
  have "map s_id (stores db') = map s_id (stores db)"
    unfolding update_store_category_effect(1) [OF assms(1)] by (induction "stores db") auto
  then show ?thesis
    using assms(2) update_store_category_effect(2) [OF assms(1)] by (simp add: db_ok_def)
qed

text \<open>
  C7. On a store with unique ids, a successful \<open>update_store_category m cid\<close> on an
  existing merchant \<open>m\<close> leaves the transactions and the categories as they are and only
  changes the reference of the merchant. Afterwards, for every statement, every result
  of \<open>get_category_sums\<close> is made of the totals in which the transactions of \<open>m\<close> count
  for the category \<open>cid\<close> and for no other, and all other transactions count as before;
  and for every statement that holds a transaction of \<open>m\<close>, the result has the pair of
  the category \<open>cid\<close>, whose total is the sum over the transactions of \<open>m\<close> and of the
  merchants that already referenced \<open>cid\<close>.
\<close>

theorem C7_reassign_changes_sums:
  assumes "db_ok db" and "update_store_category m cid db = (Inr (), db')"
    and "m \<in> set (map s_id (stores db))"
  shows "transactions db' = transactions db \<and> categories db' = categories db \<and>
         spec_store_category db' m = Some cid \<and>
         (\<forall>sid out. get_category_sums sid db' out \<longrightarrow>
            mset out =
              image_mset
                (\<lambda>c. (c_name c,
                      sum_list (map t_amount
                        (filter (\<lambda>t. t_statement_id t = sid \<and>
                                     (if t_store_id t = m then c_id c = cid
                                      else spec_store_category db (t_store_id t) = Some (c_id c)))
                           (transactions db)))))
                (filter_mset
                   (\<lambda>c. filter (\<lambda>t. t_statement_id t = sid \<and>
                                     (if t_store_id t = m then c_id c = cid
                                      else spec_store_category db (t_store_id t) = Some (c_id c)))
                             (transactions db) \<noteq> [])
                   (mset (categories db)))) \<and>
         (\<forall>sid. (\<exists>t \<in> set (transactions db). t_statement_id t = sid \<and> t_store_id t = m) \<longrightarrow>
            (\<exists>c \<in> set (categories db). c_id c = cid \<and>
               (\<forall>out. get_category_sums sid db' out \<longrightarrow>
                  (c_name c,
                   sum_list (map t_amount
                     (filter (\<lambda>t. t_statement_id t = sid \<and>
                                  (t_store_id t = m \<or> spec_store_category db (t_store_id t) = Some cid))
                        (transactions db)))) \<in> set out)))"
proof -
  note eff = update_store_category_effect [OF assms(2)]
  note ok' = db_ok_after_update [OF assms(2,1)]
  define T where "T = (\<lambda>sid k. filter (\<lambda>t. t_statement_id t = sid \<and>
                                     (if t_store_id t = m then k = cid
                                      else spec_store_category db (t_store_id t) = Some k))
                           (transactions db))"
  have sc: "spec_store_category db' k = (if k = m then Some cid else spec_store_category db k)" for k
    using spec_store_category_after [OF assms(2), of k] assms(3) by simp
  have tr: "spec_category_transactions (\<lambda>t. t_statement_id t = sid) db' k = T sid k" for sid k
    unfolding spec_category_transactions_def eff(3) sc T_def
    by (rule filter_cong) auto
  have sums: "mset out =
      image_mset (\<lambda>c. (c_name c, sum_list (map t_amount (T sid (c_id c)))))
        (filter_mset (\<lambda>c. T sid (c_id c) \<noteq> []) (mset (categories db)))"
    if "get_category_sums sid db' out" for sid out
    using that group_by_category_spec [OF ok', of "\<lambda>t. t_statement_id t = sid"]
    unfolding get_category_sums_def order_by_total_desc_def spec_category_total_def tr eff(2)
    by simp
  have third: "\<exists>c \<in> set (categories db). c_id c = cid \<and>
               (\<forall>out. get_category_sums sid db' out \<longrightarrow>
                  (c_name c,
                   sum_list (map t_amount
                     (filter (\<lambda>t. t_statement_id t = sid \<and>
                                  (t_store_id t = m \<or> spec_store_category db (t_store_id t) = Some cid))
                        (transactions db)))) \<in> set out)"
    if ex: "\<exists>t \<in> set (transactions db). t_statement_id t = sid \<and> t_store_id t = m" for sid
  proof -
    from eff(4) [OF assms(3)] obtain c where c: "c \<in> set (categories db)" "c_id c = cid"
      by auto
    have Tc: "T sid cid = filter (\<lambda>t. t_statement_id t = sid \<and>
                (t_store_id t = m \<or> spec_store_category db (t_store_id t) = Some cid)) (transactions db)"
      unfolding T_def by (rule filter_cong) auto
    from ex obtain t where "t \<in> set (transactions db)" "t_statement_id t = sid" "t_store_id t = m"
      by blast
    then have "t \<in> set (T sid cid)" unfolding T_def by simp
    then have ne: "T sid (c_id c) \<noteq> []" using c(2) by auto
    have "(c_name c, sum_list (map t_amount (T sid cid))) \<in> set out"
      if g: "get_category_sums sid db' out" for out
    proof -
      have "(c_name c, sum_list (map t_amount (T sid (c_id c)))) \<in>#
              image_mset (\<lambda>c. (c_name c, sum_list (map t_amount (T sid (c_id c)))))
                (filter_mset (\<lambda>c. T sid (c_id c) \<noteq> []) (mset (categories db)))"
        using c(1) ne by auto
      then have "(c_name c, sum_list (map t_amount (T sid (c_id c)))) \<in># mset out"
        unfolding sums [OF g] .
      then show ?thesis using c(2) by simp
    qed
    then show ?thesis using c unfolding Tc by blast
  qed
  show ?thesis
    using eff(2,3) sc [of m] sums third unfolding T_def by simp
qed

lemma example_reassign:
  "update_store_category 2 2 example_db = (Inr (), snd (update_store_category 2 2 example_db))"
  by code_simp

lemma example_reassign_groups:
  "group_by_category (filter (\<lambda>(t, s, c). t_statement_id t = 2)
      (joined (snd (update_store_category 2 2 example_db)))) = [(''Comida'', 60)]"
  by code_simp

theorem C7_reassign_changes_sums_witness:
  "db_ok example_db \<and>
   update_store_category 2 2 example_db = (Inr (), snd (update_store_category 2 2 example_db)) \<and>
   2 \<in> set (map s_id (stores example_db)) \<and>
   get_category_sums 2 (snd (update_store_category 2 2 example_db)) [(''Comida'', 60)] \<and>
   transactions (snd (update_store_category 2 2 example_db)) = transactions example_db \<and>
   spec_store_category (snd (update_store_category 2 2 example_db)) 2 = Some 2 \<and>
   (\<exists>c \<in> set (categories example_db). c_id c = 2 \<and>
      (c_name c,
       sum_list (map t_amount
         (filter (\<lambda>t. t_statement_id t = 2 \<and>
                      (t_store_id t = 2 \<or> spec_store_category example_db (t_store_id t) = Some 2))
            (transactions example_db)))) \<in> set [(''Comida'', 60)])"
proof -
  have m: "2 \<in> set (map s_id (stores example_db))" by (simp add: example_db_def)
  have g: "get_category_sums 2 (snd (update_store_category 2 2 example_db)) [(''Comida'', 60)]"
    unfolding get_category_sums_def example_reassign_groups order_by_total_desc_def by simp
  have t: "\<exists>t \<in> set (transactions example_db). t_statement_id t = 2 \<and> t_store_id t = 2"
    by (simp add: example_db_def)
  note th = C7_reassign_changes_sums [OF example_ok example_reassign m]
  from th have a: "transactions (snd (update_store_category 2 2 example_db)) = transactions example_db"
    and b: "spec_store_category (snd (update_store_category 2 2 example_db)) 2 = Some 2"
    by blast+
  from th t g have c: "\<exists>c \<in> set (categories example_db). c_id c = 2 \<and>
      (c_name c,
       sum_list (map t_amount
         (filter (\<lambda>t. t_statement_id t = 2 \<and>
                      (t_store_id t = 2 \<or> spec_store_category example_db (t_store_id t) = Some 2))
            (transactions example_db)))) \<in> set [(''Comida'', 60)]"
    by blast
  show ?thesis using example_ok example_reassign m g a b c by blast
qed

section \<open>The sibling paths and the second parser\<close>

text \<open>
  The facts below place the defects. The numeric date form skips a line whose day
  does not exist (\<open>numeric_invalid_date_skipped\<close>), which the month-name form does not
  do; a minus just before the match gives the negated amount
  (\<open>parse_pdf_leading_minus\<close>), which a trailing minus does not; and the second
  \<open>PDFParser\<close> behaves on the same lines as the first, and raises as well in its third
  date form. The numeric date form checks the day against the year of the clock and not
  of the target period: the line 29/02 for February 2024 is kept by an import that runs
  in 2024 and dropped by one that runs in 2026 (\<open>short_date_29_feb_clock_year\<close>).
\<close>

lemma short_date_29_feb_clock_year:
  "import_lines 2024 2024 2 [''29/02 market 10,00''] =
     Inr [\<lparr>date = \<lparr>year = 2024, month = 2, day = 29\<rparr>, store_name = ''market'',
           amount = 10, installment_number = None\<rparr>] \<and>
   import_lines 2026 2024 2 [''29/02 market 10,00''] = Inr []"
  by code_simp

lemma month_names_v2_feb: "MONTH_NAMES_v2 (py_lower (py_rstrip_dots ''Feb'')) = Some 2"
  by code_simp

lemma parse_line_v2_30_feb: "parse_line_v2 y ''30 Feb market 1.000,00-'' = Inl ValueError"
  unfolding parse_line_v2_def Let_def strip_30_feb numeric_date_v2_def date_pattern_30_feb
    month_date_v2_def month_pattern_30_feb
  by (simp add: py_int_30 month_names_v2_feb no_feb_30)

lemma parse_pdf_v2_30_feb: "parse_pdf_v2 y [''30 Feb market 1.000,00-''] = Inl ValueError"
  by (simp add: parse_pdf_v2_def parse_line_v2_30_feb)

lemma parse_pdf_v2_31_feb_2024:
  "parse_pdf_v2 2025 [''31-feb-2024 market 1.000,00''] = Inl ValueError"
  by code_simp

lemma parse_pdf_v2_trailing_minus: "parse_pdf_v2 2024 [''05/03 market 1.000,00-''] = Inr []"
  by code_simp

lemma parse_pdf_leading_minus:
  "parse_pdf 2024 [''05/03 market -1.000,00''] =
     Inr [\<lparr>date = \<lparr>year = 2024, month = 3, day = 5\<rparr>, store_name = ''market -'',
           amount = - 1000, installment_number = None\<rparr>]"
  by code_simp

lemma month_pattern_numeric:
  assumes "list_all is_digit dd" "dd \<noteq> []" "length dd \<le> 2" "sep = CHR ''/'' \<or> sep = CHR ''-''"
  shows "MONTH_PATTERN (dd @ sep # r) = None"
proof -
  have ns: "\<not> is_digit sep" "\<not> is_space sep"
    using assms(4) by (auto simp: is_digit_def is_space_def)
  have n1: "match_digits12 (dd @ sep # r) = length dd"
    using assms(1-3) ns by (intro match_digits12_exact) auto
  show ?thesis
    unfolding MONTH_PATTERN_def Let_def n1 using ns by simp
qed

lemma numeric_invalid_date_skipped:
  assumes "py_strip orig = dd @ sep # mm @ tail"
    and "list_all is_digit dd" "dd \<noteq> []" "length dd \<le> 2"
    and "list_all is_digit mm" "mm \<noteq> []" "length mm \<le> 2"
    and "sep = CHR ''/'' \<or> sep = CHR ''-''"
    and "length mm = 2 \<or> tail = [] \<or> \<not> is_digit (hd tail)"
    and "py_date today_year (digits_val mm) (digits_val dd) = None"
  shows "parse_line today_year orig = Inr None"
proof -
  have "numeric_date today_year (py_strip orig) = None"
    unfolding assms(1) numeric_date_shape [OF assms(2-9)] assms(10) by simp
  moreover have "month_date today_year (py_strip orig) = Inr None"
    unfolding assms(1) month_date_def month_pattern_numeric [OF assms(2-4,8)] by simp
  ultimately show ?thesis
    unfolding parse_line_def Let_def by simp
qed

section \<open>The states the application can reach\<close>

text \<open>
  The theorems on the store assume unique ids and an existing default category. Both
  hold after \<open>__init__\<close> on an empty database and are kept by every operation, so they
  hold in every state the application reaches (\<open>reachable_inv\<close>).
\<close>

lemma store_inv_cong:
  "categories db' = categories db \<Longrightarrow> stores db' = stores db \<Longrightarrow> store_inv db \<Longrightarrow> store_inv db'"
  by (simp add: store_inv_def db_ok_def get_default_category_id_def)

lemma default_after_append:
  "get_default_category_id db = Inr d \<Longrightarrow> categories db' = categories db @ cs \<Longrightarrow>
   get_default_category_id db' = Inr d"
  by (auto simp: get_default_category_id_def split: list.splits)

lemma insert_category_inv:
  assumes "insert_category name db = Inr db'" "store_inv db"
  shows "store_inv db'"
proof -
  define i where "i = next_id (seq_categories db) (map c_id (categories db))"
  from assms(1) have c: "categories db' = categories db @ [\<lparr>c_id = i, c_name = name\<rparr>]"
    and s: "stores db' = stores db"
    unfolding insert_category_def Let_def i_def by (auto split: if_splits)
  have "i \<notin> set (map c_id (categories db))" unfolding i_def by (rule next_id_fresh)
  then have "db_ok db'" using assms(2) c s by (simp add: store_inv_def db_ok_def)
  moreover from assms(2) obtain d where "get_default_category_id db = Inr d"
    by (auto simp: store_inv_def)
  then have "get_default_category_id db' = Inr d" using c by (rule default_after_append)
  ultimately show ?thesis by (auto simp: store_inv_def)
qed

lemma insert_store_inv:
  assumes "insert_store name cid db = Inr (i, db')" "store_inv db"
  shows "store_inv db'"
proof -
  from assms(1) have c: "categories db' = categories db"
    and s: "stores db' = stores db @ [\<lparr>s_id = i, s_name = name, s_category_id = Some cid\<rparr>]"
    and i: "i = next_id (seq_stores db) (map s_id (stores db))"
    unfolding insert_store_def Let_def by (auto split: if_splits)
  have "i \<notin> set (map s_id (stores db))" unfolding i by (rule next_id_fresh)
  then show ?thesis
    using assms(2) c s by (simp add: store_inv_def db_ok_def get_default_category_id_def)
qed

lemma map_stores_inv:
  assumes "stores db' = map f (stores db)" "\<And>s. s_id (f s) = s_id s"
    "categories db' = categories db" "store_inv db"
  shows "store_inv db'"
proof -
  have "map s_id (stores db') = map s_id (stores db)"
    unfolding assms(1) using assms(2) by simp
  then show ?thesis
    using assms(3,4) by (simp add: store_inv_def db_ok_def get_default_category_id_def)
qed

lemma update_stores_of_category_inv:
  "update_stores_of_category new old db = Inr db' \<Longrightarrow> store_inv db \<Longrightarrow> store_inv db'"
  by (rule map_stores_inv [where f = "\<lambda>s. if s_category_id s = Some old then s\<lparr>s_category_id := Some new\<rparr> else s"])
     (auto simp: update_stores_of_category_def split: if_splits)

lemma update_store_row_inv:
  "update_store_row cid sid db = Inr db' \<Longrightarrow> store_inv db \<Longrightarrow> store_inv db'"
  by (rule map_stores_inv [where f = "\<lambda>s. if s_id s = sid then s\<lparr>s_category_id := Some cid\<rparr> else s"])
     (auto simp: update_store_row_def split: if_splits)

lemma delete_category_row_inv:
  assumes "delete_category_row cid db = Inr db'" "get_default_category_id db = Inr d" "cid \<noteq> d"
    "store_inv db"
  shows "store_inv db'"
proof -
  from assms(1) have c: "categories db' = filter (\<lambda>c. c_id c \<noteq> cid) (categories db)"
    and s: "stores db' = stores db"
    unfolding delete_category_row_def by (auto split: if_splits)
  have "get_default_category_id db' = Inr d"
    using assms(2,3) c by (rule default_after_filter)
  moreover have "db_ok db'"
    using assms(4) c s by (simp add: store_inv_def db_ok_def distinct_map_filter)
  ultimately show ?thesis by (auto simp: store_inv_def)
qed

lemma insert_statement_inv:
  "insert_statement mo yr cn l4 path db = Inr (i, db') \<Longrightarrow> store_inv db \<Longrightarrow> store_inv db'"
  by (rule store_inv_cong [where db = db]) (auto simp: insert_statement_def Let_def split: if_splits)

lemma insert_transaction_inv:
  "insert_transaction sid d store_id amt inst db = Inr db' \<Longrightarrow> store_inv db \<Longrightarrow> store_inv db'"
  by (rule store_inv_cong [where db = db]) (auto simp: insert_transaction_def Let_def split: if_splits)

lemma add_category_inv: "store_inv db \<Longrightarrow> store_inv (snd (add_category name db))"
proof (cases "insert_category name db")
  case (Inl e)
  assume "store_inv db"
  then show ?thesis using Inl by (simp add: add_category_def)
next
  case (Inr db')
  assume "store_inv db"
  then have "store_inv db'" using Inr insert_category_inv by blast
  then show ?thesis using Inr by (simp add: add_category_def)
qed

lemma default_unchanged:
  "categories db' = categories db \<Longrightarrow> get_default_category_id db' = get_default_category_id db"
  by (simp add: get_default_category_id_def)

lemma delete_category_inv: "store_inv db \<Longrightarrow> store_inv (snd (delete_category cid db))"
proof -
  assume inv: "store_inv db"
  then obtain d where d: "get_default_category_id db = Inr d" by (auto simp: store_inv_def)
  show ?thesis
  proof (cases "cid = d")
    case True
    then show ?thesis using d inv by (simp add: delete_category_def)
  next
    case False
    show ?thesis
    proof (cases "update_stores_of_category d cid db")
      case (Inl e)
      then show ?thesis using d False inv by (simp add: delete_category_def)
    next
      case u: (Inr db1)
      have inv1: "store_inv db1" using u inv by (rule update_stores_of_category_inv)
      have "categories db1 = categories db"
        using u by (auto simp: update_stores_of_category_def split: if_splits)
      then have "get_default_category_id db1 = get_default_category_id db"
        by (rule default_unchanged)
      then have d1: "get_default_category_id db1 = Inr d"
        using d by simp
      show ?thesis
      proof (cases "delete_category_row cid db1")
        case (Inl e)
        then show ?thesis using d False u inv1 by (simp add: delete_category_def)
      next
        case r: (Inr db2)
        have "store_inv db2" using r d1 False inv1 by (rule delete_category_row_inv)
        then show ?thesis using d False u r by (simp add: delete_category_def)
      qed
    qed
  qed
qed

lemma get_store_id_inv: "store_inv db \<Longrightarrow> store_inv (snd (get_store_id name db))"
proof -
  assume inv: "store_inv db"
  show ?thesis
  proof (cases "filter (\<lambda>s. s_name s = name) (stores db)")
    case (Cons row rows)
    then show ?thesis using inv by (simp add: get_store_id_def)
  next
    case Nil
    show ?thesis
    proof (cases "get_default_category_id db")
      case (Inl e)
      then show ?thesis using Nil inv by (simp add: get_store_id_def)
    next
      case d: (Inr dflt)
      show ?thesis
      proof (cases "insert_store name dflt db")
        case (Inl e)
        then show ?thesis using Nil d inv by (simp add: get_store_id_def)
      next
        case (Inr p)
        obtain i db' where p: "p = (i, db')" by (cases p)
        have "store_inv db'" using Inr p inv insert_store_inv by blast
        then show ?thesis using Nil d Inr p by (simp add: get_store_id_def)
      qed
    qed
  qed
qed

lemma update_store_category_inv: "store_inv db \<Longrightarrow> store_inv (snd (update_store_category sid cid db))"
proof (cases "update_store_row cid sid db")
  case (Inl e)
  assume "store_inv db"
  then show ?thesis using Inl by (simp add: update_store_category_def)
next
  case (Inr db')
  assume "store_inv db"
  then have "store_inv db'" using Inr update_store_row_inv by blast
  then show ?thesis using Inr by (simp add: update_store_category_def)
qed

lemma add_statement_inv: "store_inv db \<Longrightarrow> store_inv (snd (add_statement mo yr cn l4 path db))"
proof (cases "insert_statement mo yr cn l4 (Some path) db")
  case (Inl e)
  assume "store_inv db"
  then show ?thesis using Inl by (simp add: add_statement_def)
next
  case (Inr p)
  obtain i db' where p: "p = (i, db')" by (cases p)
  assume "store_inv db"
  then have "store_inv db'" using Inr p insert_statement_inv by blast
  then show ?thesis using Inr p by (simp add: add_statement_def)
qed

lemma add_transactions_inv: "store_inv db \<Longrightarrow> store_inv (snd (add_transactions sid txs db))"
proof (induction txs arbitrary: db)
  case Nil
  then show ?case by simp
next
  case (Cons t txs)
  obtain r db1 where g: "get_store_id (store_name t) db = (r, db1)"
    by (cases "get_store_id (store_name t) db")
  have inv1: "store_inv db1" using get_store_id_inv [OF Cons.prems, of "store_name t"] g by simp
  show ?case
  proof (cases r)
    case (Inl e)
    then show ?thesis using g inv1 by simp
  next
    case (Inr store_id)
    show ?thesis
    proof (cases "insert_transaction sid (date t) store_id (amount t) (installment_number t) db1")
      case (Inl e)
      then show ?thesis using g Inr inv1 by simp
    next
      case i: (Inr db2)
      have "store_inv db2" using i inv1 by (rule insert_transaction_inv)
      then show ?thesis using g Inr i Cons.IH [of db2] by simp
    qed
  qed
qed

lemma add_manual_transaction_inv:
  "store_inv db \<Longrightarrow> store_inv (snd (add_manual_transaction sid d name amt db))"
proof -
  assume inv: "store_inv db"
  obtain r db1 where g: "get_store_id name db = (r, db1)"
    by (cases "get_store_id name db")
  have inv1: "store_inv db1" using get_store_id_inv [OF inv, of name] g by simp
  show ?thesis
  proof (cases r)
    case (Inl e)
    then show ?thesis using g inv1 by (simp add: add_manual_transaction_def)
  next
    case (Inr store_id)
    show ?thesis
    proof (cases "insert_transaction sid d store_id amt None db1")
      case (Inl e)
      then show ?thesis using g Inr inv1 by (simp add: add_manual_transaction_def)
    next
      case i: (Inr db2)
      have "store_inv db2" using i inv1 by (rule insert_transaction_inv)
      then show ?thesis using g Inr i by (simp add: add_manual_transaction_def)
    qed
  qed
qed

lemma apply_op_inv: "store_inv db \<Longrightarrow> store_inv (apply_op a db)"
proof (cases a)
  case (Delete_transaction x)
  assume inv: "store_inv db"
  have "store_inv (delete_transaction_row x db)"
    by (rule store_inv_cong [OF _ _ inv]) (simp_all add: delete_transaction_row_def)
  then show ?thesis unfolding Delete_transaction by simp
next
  case (Delete_statement x)
  assume inv: "store_inv db"
  have "store_inv (delete_statement_row x db)"
    by (rule store_inv_cong [OF _ _ inv]) (simp_all add: delete_statement_row_def)
  then show ?thesis unfolding Delete_statement by simp
qed (simp_all add: add_category_inv delete_category_inv get_store_id_inv update_store_category_inv
      add_statement_inv add_transactions_inv add_manual_transaction_inv)

lemma run_inv: "store_inv db \<Longrightarrow> store_inv (run ops db)"
  by (induction ops arbitrary: db) (simp_all add: apply_op_inv)

lemma init_inv: "store_inv (init empty_db)"
  by (simp add: store_inv_def db_ok_def init_def ensure_cash_statement_def
      ensure_default_category_def insert_category_def insert_statement_def empty_db_def
      get_default_category_id_def next_id_def Let_def)

lemma reachable_inv: "store_inv (run ops (init empty_db))"
  using init_inv by (rule run_inv)

end
